theory Spec2Isabelle
  imports Complex_Main "HOL-Library.Multiset"
begin

section \<open>Grid model (types/sudoku.ts, utils/sudokuGenerator.ts)\<close>

text \<open>
  A grid is the 9x9 array \<^verbatim>\<open>number[][]\<close> of the generator. The generator reads and
  writes it only at indices \<open>0..8\<close> (every loop runs to \<open>GRID_SIZE\<close>, and the block
  origin plus an offset below \<open>BLOCK_SIZE\<close> stays below 9), so the array is modelled
  as a total function of row and column; cells of the model outside \<open>0..8\<close> are never
  touched. Cell values are integers, 0 is the empty cell.
\<close>

abbreviation GRID_SIZE :: nat where "GRID_SIZE \<equiv> 9"
abbreviation BLOCK_SIZE :: nat where "BLOCK_SIZE \<equiv> 3"

type_synonym grid = "nat \<Rightarrow> nat \<Rightarrow> int"

text \<open>The assignment \<^verbatim>\<open>grid[row][col] = v\<close>.\<close>

definition setCell :: "grid \<Rightarrow> nat \<Rightarrow> nat \<Rightarrow> int \<Rightarrow> grid" where
  "setCell grid row col v = grid(row := (grid row)(col := v))"

text \<open>
  The coordinates in the order of the nested loops
  \<^verbatim>\<open>for (row = 0; row < GRID_SIZE; row++) for (col = 0; col < GRID_SIZE; col++)\<close>,
  which both \<^verbatim>\<open>findEmptyCell\<close> and \<^verbatim>\<open>createPuzzle\<close> run.
\<close>

definition positions :: "(nat \<times> nat) list" where
  "positions = concat (map (\<lambda>row. map (\<lambda>col. (row, col)) [0..<GRID_SIZE]) [0..<GRID_SIZE])"

definition findEmptyCell :: "grid \<Rightarrow> (nat \<times> nat) option" where
  "findEmptyCell grid = find (\<lambda>(row, col). grid row col = 0) positions"

definition isValidPlacement :: "grid \<Rightarrow> nat \<Rightarrow> nat \<Rightarrow> int \<Rightarrow> bool" where
  "isValidPlacement grid row col num =
     (list_all (\<lambda>x. grid row x \<noteq> num) [0..<GRID_SIZE] \<and>
      list_all (\<lambda>x. grid x col \<noteq> num) [0..<GRID_SIZE] \<and>
      (let blockRow = (row div BLOCK_SIZE) * BLOCK_SIZE;
           blockCol = (col div BLOCK_SIZE) * BLOCK_SIZE
       in list_all (\<lambda>i. list_all (\<lambda>j. grid (blockRow + i) (blockCol + j) \<noteq> num)
            [0..<BLOCK_SIZE]) [0..<BLOCK_SIZE]))"

definition getBlockIndex :: "nat \<Rightarrow> nat \<Rightarrow> nat" where
  "getBlockIndex row col = (row div BLOCK_SIZE) * BLOCK_SIZE + col div BLOCK_SIZE"

text \<open>The grid \<^verbatim>\<open>generateSolution\<close> starts from: every cell 0.\<close>

definition emptyGrid :: grid where
  "emptyGrid = (\<lambda>row col. 0)"

text \<open>A grid written as its nine rows.\<close>

definition gridOfRows :: "int list list \<Rightarrow> grid" where
  "gridOfRows rows = (\<lambda>row col. if row < GRID_SIZE \<and> col < GRID_SIZE then rows ! row ! col else 0)"

subsection \<open>Units: rows, columns and blocks\<close>

text \<open>Two cells share a unit when they lie in the same row, column or 3x3 block.\<close>

definition sameUnit :: "nat \<Rightarrow> nat \<Rightarrow> nat \<Rightarrow> nat \<Rightarrow> bool" where
  "sameUnit row col r c =
     (r = row \<or> c = col \<or> (r div BLOCK_SIZE = row div BLOCK_SIZE \<and> c div BLOCK_SIZE = col div BLOCK_SIZE))"

text \<open>The value occurs in some cell of the row, column or block of \<open>(row, col)\<close>.\<close>

definition appearsInUnits :: "grid \<Rightarrow> nat \<Rightarrow> nat \<Rightarrow> int \<Rightarrow> bool" where
  "appearsInUnits grid row col v =
     list_ex (\<lambda>(r, c). sameUnit row col r c \<and> grid r c = v) positions"

text \<open>The value occurs in such a cell other than \<open>(row, col)\<close> itself.\<close>

definition appearsElsewhere :: "grid \<Rightarrow> nat \<Rightarrow> nat \<Rightarrow> int \<Rightarrow> bool" where
  "appearsElsewhere grid row col v =
     list_ex (\<lambda>(r, c). (r, c) \<noteq> (row, col) \<and> sameUnit row col r c \<and> grid r c = v) positions"

section \<open>Facts about the grid model\<close>

lemma set_positions: "set positions = {(r, c). r < 9 \<and> c < 9}"
  by (auto simp: positions_def)

lemma distinct_positions: "distinct positions"
  unfolding positions_def
  by (rule distinct_concat) (auto simp: distinct_map inj_on_def)

lemma length_positions: "length positions = 81"
  by (simp add: positions_def length_concat comp_def sum_list_triv)

lemma setCell_apply:
  "setCell g row col v r c = (if r = row \<and> c = col then v else g r c)"
  by (simp add: setCell_def)

lemma setCell_same: "g row col = v \<Longrightarrow> setCell g row col v = g"
  by (rule ext, rule ext) (simp add: setCell_apply)

lemma setCell_setCell [simp]: "setCell (setCell g row col v) row col w = setCell g row col w"
  by (rule ext, rule ext) (simp add: setCell_apply)

lemma block_cell_iff:
  fixes r row :: nat
  shows "(r div 3 = row div 3) = (\<exists>i<3. r = row div 3 * 3 + i)"
proof
  assume "r div 3 = row div 3"
  then have "r = row div 3 * 3 + r mod 3" by (metis div_mult_mod_eq)
  moreover have "r mod 3 < 3" by simp
  ultimately show "\<exists>i<3. r = row div 3 * 3 + i" by blast
next
  assume "\<exists>i<3. r = row div 3 * 3 + i"
  then show "r div 3 = row div 3" by auto
qed

lemma isValidPlacement_iff:
  assumes "row < 9" "col < 9"
  shows "isValidPlacement g row col num =
         (\<forall>r<9. \<forall>c<9. sameUnit row col r c \<longrightarrow> g r c \<noteq> num)"
proof
  assume v: "isValidPlacement g row col num"
  show "\<forall>r<9. \<forall>c<9. sameUnit row col r c \<longrightarrow> g r c \<noteq> num"
  proof (intro allI impI)
    fix r c :: nat
    assume r: "r < 9" and c: "c < 9" and u: "sameUnit row col r c"
    from u consider "r = row" | "c = col" | "r div 3 = row div 3 \<and> c div 3 = col div 3"
      by (auto simp: sameUnit_def)
    then show "g r c \<noteq> num"
    proof cases
      case 1
      with v c show ?thesis by (simp add: isValidPlacement_def list_all_iff)
    next
      case 2
      with v r show ?thesis by (simp add: isValidPlacement_def list_all_iff)
    next
      case 3
      then obtain i j where "i < 3" "r = row div 3 * 3 + i" "j < 3" "c = col div 3 * 3 + j"
        using block_cell_iff by blast
      with v show ?thesis by (simp add: isValidPlacement_def list_all_iff Let_def)
    qed
  qed
next
  assume a: "\<forall>r<9. \<forall>c<9. sameUnit row col r c \<longrightarrow> g r c \<noteq> num"
  have rowok: "\<And>x. x < 9 \<Longrightarrow> g row x \<noteq> num"
    using a assms by (simp add: sameUnit_def)
  have colok: "\<And>x. x < 9 \<Longrightarrow> g x col \<noteq> num"
    using a assms by (simp add: sameUnit_def)
  have blockok: "\<And>i j. i < 3 \<Longrightarrow> j < 3 \<Longrightarrow> g (row div 3 * 3 + i) (col div 3 * 3 + j) \<noteq> num"
  proof -
    fix i j :: nat
    assume i: "i < 3" and j: "j < 3"
    have "row div 3 * 3 + i < 9" "col div 3 * 3 + j < 9"
      using assms i j by presburger+
    moreover have "sameUnit row col (row div 3 * 3 + i) (col div 3 * 3 + j)"
      using i j by (simp add: sameUnit_def)
    ultimately show "g (row div 3 * 3 + i) (col div 3 * 3 + j) \<noteq> num"
      using a by blast
  qed
  show "isValidPlacement g row col num"
    using rowok colok blockok by (simp add: isValidPlacement_def list_all_iff Let_def)
qed

lemma appearsInUnits_iff:
  "appearsInUnits g row col v = (\<exists>r<9. \<exists>c<9. sameUnit row col r c \<and> g r c = v)"
  by (auto simp: appearsInUnits_def list_ex_iff set_positions)

lemma appearsElsewhere_iff:
  "appearsElsewhere g row col v =
     (\<exists>r<9. \<exists>c<9. (r, c) \<noteq> (row, col) \<and> sameUnit row col r c \<and> g r c = v)"
  by (auto simp: appearsElsewhere_def list_ex_iff set_positions)

section \<open>The random source and the shuffle\<close>

text \<open>
  \<^verbatim>\<open>Math.random()\<close> returns a number \<open>u\<close> with \<open>0 \<le> u < 1\<close>; the type of draws
  carries that contract. The process-wide generator is an infinite sequence of draws,
  threaded through every function that calls it: a call takes the first draw and leaves
  the rest. Draws are real numbers here; \<^verbatim>\<open>Math.floor(Math.random() * n)\<close> lies in
  \<open>0..n-1\<close> for them as it does for doubles.
\<close>

typedef unitReal = "{x::real. 0 \<le> x \<and> x < 1}"
  by (rule exI [of _ 0]) simp

setup_lifting type_definition_unitReal

declare Rep_unitReal_inverse [code abstype]

type_synonym rng = "nat \<Rightarrow> unitReal"

definition random :: "rng \<Rightarrow> real \<times> rng" where
  "random rng = (Rep_unitReal (rng 0), \<lambda>n. rng (Suc n))"

text \<open>
  \<^verbatim>\<open>shuffleArray\<close>: the loop \<^verbatim>\<open>for (i = length - 1; i > 0; i--)\<close> draws
  \<^verbatim>\<open>j = floor(random() * (i + 1))\<close> and swaps the entries at \<open>i\<close> and \<open>j\<close>.
\<close>

fun shuffleLoop :: "nat \<Rightarrow> 'a list \<Rightarrow> rng \<Rightarrow> 'a list \<times> rng" where
  "shuffleLoop 0 shuffled rng = (shuffled, rng)"
| "shuffleLoop (Suc k) shuffled rng =
     (let i = Suc k;
          (u, rng') = random rng;
          j = nat \<lfloor>u * real (i + 1)\<rfloor>
      in shuffleLoop k (shuffled[i := shuffled ! j, j := shuffled ! i]) rng')"

definition shuffleArray :: "'a list \<Rightarrow> rng \<Rightarrow> 'a list \<times> rng" where
  "shuffleArray array rng = shuffleLoop (length array - 1) array rng"

definition randomInRange :: "int \<Rightarrow> int \<Rightarrow> rng \<Rightarrow> int \<times> rng" where
  "randomInRange lo hi rng =
     (let (u, rng') = random rng in (\<lfloor>u * real_of_int (hi - lo + 1)\<rfloor> + lo, rng'))"

lemma random_range: "0 \<le> fst (random rng) \<and> fst (random rng) < 1"
  using Rep_unitReal [of "rng 0"] by (simp add: random_def)

lemma random_index_le:
  assumes "0 \<le> u" "u < 1"
  shows "nat \<lfloor>u * real (Suc i)\<rfloor> \<le> i"
proof -
  have "u * real (Suc i) < real (Suc i)" using assms by simp
  then have "\<lfloor>u * real (Suc i)\<rfloor> < int (Suc i)" by (simp add: floor_less_iff)
  then show ?thesis by simp
qed

lemma mset_shuffleLoop:
  "k < length xs \<Longrightarrow> mset (fst (shuffleLoop k xs rng)) = mset xs"
proof (induction k arbitrary: xs rng)
  case 0
  then show ?case by simp
next
  case (Suc k)
  obtain u rng' where r: "random rng = (u, rng')" by (cases "random rng")
  with random_range [of rng] have u: "0 \<le> u" "u < 1" by simp_all
  let ?j = "nat \<lfloor>u * real (Suc (Suc k))\<rfloor>"
  have j: "?j \<le> Suc k" using u by (rule random_index_le)
  let ?xs = "xs[Suc k := xs ! ?j, ?j := xs ! Suc k]"
  have m: "mset ?xs = mset xs"
    using Suc.prems j by (simp add: mset_swap)
  have "k < length ?xs" using Suc.prems by simp
  from Suc.IH [OF this] m r show ?case by (simp add: Let_def)
qed

lemma mset_shuffleArray: "mset (fst (shuffleArray xs rng)) = mset xs"
proof (cases xs)
  case Nil
  then show ?thesis by (simp add: shuffleArray_def)
next
  case (Cons a list)
  then have "length xs - 1 < length xs" by simp
  then show ?thesis unfolding shuffleArray_def by (rule mset_shuffleLoop)
qed

lemma set_shuffleArray: "set (fst (shuffleArray xs rng)) = set xs"
  by (metis mset_shuffleArray set_mset_mset)

lemma length_shuffleArray: "length (fst (shuffleArray xs rng)) = length xs"
  by (metis mset_shuffleArray size_mset)

lemma distinct_shuffleArray: "distinct (fst (shuffleArray xs rng)) = distinct xs"
  by (metis mset_shuffleArray mset_eq_imp_distinct_iff)

lemma randomInRange_bounds:
  assumes "lo \<le> hi"
  shows "lo \<le> fst (randomInRange lo hi rng) \<and> fst (randomInRange lo hi rng) \<le> hi"
proof -
  obtain u rng' where r: "random rng = (u, rng')" by (cases "random rng")
  with random_range [of rng] have u: "0 \<le> u" "u < 1" by simp_all
  let ?n = "real_of_int (hi - lo + 1)"
  have n: "0 < ?n" using assms by simp
  have "0 \<le> u * ?n" using u n by simp
  then have f0: "0 \<le> \<lfloor>u * ?n\<rfloor>" by simp
  have "u * ?n < ?n" using u n by simp
  then have "\<lfloor>u * ?n\<rfloor> < hi - lo + 1" by (rule floor_less_iff [THEN iffD2])
  with f0 r show ?thesis by (simp add: randomInRange_def)
qed

section \<open>The backtracking searches\<close>

text \<open>
  The searches write a digit into the grid, recurse, and write 0 back. The model threads
  the grid through every call and returns it with the result, so that the restoring
  writes are part of the model. The \<^verbatim>\<open>for\<close> loop over the candidate digits is the
  second function of each pair.
\<close>

text \<open>
  The number of empty cells of the board. A search recurses on a grid with one empty
  cell less, which is what its termination proof measures; for that, the proof first
  shows, where the function is defined, that a failed recursive call hands the grid back
  as it got it.
\<close>

definition emptyCount :: "grid \<Rightarrow> nat" where
  "emptyCount g = card {(r, c). r < 9 \<and> c < 9 \<and> g r c = 0}"

lemma findEmptyCell_Some:
  "findEmptyCell g = Some (r, c) \<Longrightarrow> r < 9 \<and> c < 9 \<and> g r c = 0"
proof -
  assume "findEmptyCell g = Some (r, c)"
  then obtain i where i: "i < length positions" "positions ! i = (r, c)" "g r c = 0"
    by (auto simp: findEmptyCell_def find_Some_iff)
  from i(1,2) have "(r, c) \<in> set positions" by (metis nth_mem)
  with i(3) show ?thesis by (simp add: set_positions)
qed

lemma findEmptyCell_None:
  "findEmptyCell g = None \<longleftrightarrow> (\<forall>r<9. \<forall>c<9. g r c \<noteq> 0)"
  by (auto simp: findEmptyCell_def find_None_iff set_positions)

lemma emptyCount_setCell_less:
  assumes "row < 9" "col < 9" "v \<noteq> 0"
  shows "emptyCount (setCell g row col v) < emptyCount (setCell g row col 0)"
proof -
  let ?A = "{(r, c). r < 9 \<and> c < 9 \<and> setCell g row col v r c = 0}"
  let ?B = "{(r, c). r < 9 \<and> c < 9 \<and> setCell g row col 0 r c = 0}"
  have "?B \<subseteq> {..<9} \<times> {..<9}" by auto
  then have fin: "finite ?B" by (rule finite_subset) simp
  have "?A \<subseteq> ?B" by (auto simp: setCell_apply)
  moreover have "(row, col) \<in> ?B" "(row, col) \<notin> ?A" using assms by (auto simp: setCell_apply)
  ultimately have "?A \<subset> ?B" by blast
  with fin show ?thesis unfolding emptyCount_def by (rule psubset_card_mono)
qed

function solve :: "grid \<Rightarrow> bool \<times> grid"
  and solveLoop :: "grid \<Rightarrow> nat \<Rightarrow> nat \<Rightarrow> int \<Rightarrow> bool \<times> grid" where
  "solve grid =
     (case findEmptyCell grid of
        None \<Rightarrow> (True, grid)
      | Some (row, col) \<Rightarrow> solveLoop grid row col 1)"
| "solveLoop grid row col num =
     (if num \<le> 9 then
        (if isValidPlacement grid row col num then
           (case solve (setCell grid row col num) of
              (True, grid') \<Rightarrow> (True, grid')
            | (False, grid') \<Rightarrow> solveLoop (setCell grid' row col 0) row col (num + 1))
         else solveLoop grid row col (num + 1))
      else (False, grid))"
  by pat_completeness auto

lemma solve_restores_dom:
  "solve_solveLoop_dom (Inl g) \<Longrightarrow> \<not> fst (solve g) \<Longrightarrow> snd (solve g) = g"
  "solve_solveLoop_dom (Inr (g, row, col, num)) \<Longrightarrow> \<not> fst (solveLoop g row col num) \<Longrightarrow>
     snd (solveLoop g row col num) = g \<or> snd (solveLoop g row col num) = setCell g row col 0"
proof (induct rule: solve_solveLoop.pinduct)
  case (1 grid)
  show ?case
  proof (cases "findEmptyCell grid")
    case None
    with 1 show ?thesis by (simp add: solve.psimps)
  next
    case (Some p)
    obtain row col where p: "p = (row, col)" by (cases p)
    from Some p have z: "grid row col = 0" using findEmptyCell_Some by blast
    from 1(1) Some p have eq: "solve grid = solveLoop grid row col 1"
      by (simp add: solve.psimps)
    with 1(3) have "\<not> fst (solveLoop grid row col 1)" by simp
    with 1(2) [OF Some p [symmetric]] have "snd (solveLoop grid row col 1) = grid \<or>
       snd (solveLoop grid row col 1) = setCell grid row col 0" by simp
    with z eq show ?thesis by (simp add: setCell_same)
  qed
next
  case (2 grid row col num)
  note eq = solveLoop.psimps [OF 2(1)]
  show ?case
  proof (cases "num \<le> 9")
    case False
    then show ?thesis by (simp add: eq)
  next
    case le: True
    show ?thesis
    proof (cases "isValidPlacement grid row col num")
      case False
      with le 2(4,5) show ?thesis by (simp add: eq)
    next
      case v: True
      obtain ok g' where r: "solve (setCell grid row col num) = (ok, g')"
        by (cases "solve (setCell grid row col num)")
      show ?thesis
      proof (cases ok)
        case True
        with le v r 2(5) show ?thesis by (simp add: eq)
      next
        case False
        with 2(2) le v r have g': "g' = setCell grid row col num" by simp
        from le v r False have e2: "solveLoop grid row col num =
           solveLoop (setCell grid row col 0) row col (num + 1)"
          by (simp add: eq g')
        from 2(3) [OF le v r [symmetric]] False 2(5) e2 g'
        show ?thesis by simp
      qed
    qed
  qed
qed

termination solve
proof (relation "measures
    [\<lambda>x. case x of Inl g \<Rightarrow> 0
        | Inr (g, row, col, num) \<Rightarrow> (if row < 9 \<and> col < 9 \<and> 0 < num then 0 else 1),
     \<lambda>x. case x of Inl g \<Rightarrow> emptyCount g
        | Inr (g, row, col, num) \<Rightarrow> emptyCount (setCell g row col 0),
     \<lambda>x. case x of Inl g \<Rightarrow> 11
        | Inr (g, row, col, num) \<Rightarrow> nat (10 - num)]", goal_cases)
  case 1
  then show ?case by simp
next
  case (2 grid p row col)
  then have "row < 9 \<and> col < 9 \<and> grid row col = 0"
    using findEmptyCell_Some by metis
  then show ?case by (simp add: setCell_same)
next
  case (3 grid row col num)
  then show ?case
    by (auto simp: emptyCount_setCell_less)
next
  case (4 grid row col num x y)
  then have "y = setCell grid row col num"
    using solve_restores_dom(1) [of "setCell grid row col num"] by (metis fst_conv snd_conv)
  with 4 show ?case by auto
next
  case (5 grid row col num)
  then show ?case by auto
qed

text \<open>
  \<^verbatim>\<open>countSolutions(grid, count = 0)\<close> returns the updated counter; the model returns
  the grid with it.
\<close>

function countSolutions :: "grid \<Rightarrow> nat \<Rightarrow> nat \<times> grid"
  and countLoop :: "grid \<Rightarrow> nat \<Rightarrow> nat \<Rightarrow> int \<Rightarrow> nat \<Rightarrow> nat \<times> grid" where
  "countSolutions grid cnt =
     (if cnt > 1 then (cnt, grid)
      else case findEmptyCell grid of
             None \<Rightarrow> (cnt + 1, grid)
           | Some (row, col) \<Rightarrow> countLoop grid row col 1 cnt)"
| "countLoop grid row col num cnt =
     (if num \<le> 9 then
        (if isValidPlacement grid row col num then
           (case countSolutions (setCell grid row col num) cnt of
              (cnt', grid') \<Rightarrow> countLoop (setCell grid' row col 0) row col (num + 1) cnt')
         else countLoop grid row col (num + 1) cnt)
      else (cnt, grid))"
  by pat_completeness auto

lemma countSolutions_restores_dom:
  "countSolutions_countLoop_dom (Inl (g, n)) \<Longrightarrow> snd (countSolutions g n) = g"
  "countSolutions_countLoop_dom (Inr (g, row, col, num, n)) \<Longrightarrow>
     snd (countLoop g row col num n) = g \<or> snd (countLoop g row col num n) = setCell g row col 0"
proof (induct rule: countSolutions_countLoop.pinduct)
  case (1 grid cnt)
  show ?case
  proof (cases "cnt > 1")
    case True
    with 1(1) show ?thesis by (simp add: countSolutions.psimps)
  next
    case c: False
    show ?thesis
    proof (cases "findEmptyCell grid")
      case None
      with 1(1) c show ?thesis by (simp add: countSolutions.psimps)
    next
      case (Some p)
      obtain row col where p: "p = (row, col)" by (cases p)
      from Some p have z: "grid row col = 0" using findEmptyCell_Some by blast
      from 1(1) c Some p have eq: "countSolutions grid cnt = countLoop grid row col 1 cnt"
        by (simp add: countSolutions.psimps)
      from 1(2) [OF c Some p [symmetric]] z eq show ?thesis by (simp add: setCell_same)
    qed
  qed
next
  case (2 grid row col num cnt)
  note eq = countLoop.psimps [OF 2(1)]
  show ?case
  proof (cases "num \<le> 9")
    case False
    then show ?thesis by (simp add: eq)
  next
    case le: True
    show ?thesis
    proof (cases "isValidPlacement grid row col num")
      case False
      with le 2(4) show ?thesis by (simp add: eq)
    next
      case v: True
      obtain n' g' where r: "countSolutions (setCell grid row col num) cnt = (n', g')"
        by (cases "countSolutions (setCell grid row col num) cnt")
      with 2(2) le v have g': "g' = setCell grid row col num" by simp
      from le v r have e2: "countLoop grid row col num cnt =
           countLoop (setCell grid row col 0) row col (num + 1) n'"
        by (simp add: eq g')
      from 2(3) [OF le v r [symmetric]] e2 g' show ?thesis by simp
    qed
  qed
qed

termination countSolutions
proof (relation "measures
    [\<lambda>x. case x of Inl (g, n) \<Rightarrow> 0
        | Inr (g, row, col, num, n) \<Rightarrow> (if row < 9 \<and> col < 9 \<and> 0 < num then 0 else 1),
     \<lambda>x. case x of Inl (g, n) \<Rightarrow> emptyCount g
        | Inr (g, row, col, num, n) \<Rightarrow> emptyCount (setCell g row col 0),
     \<lambda>x. case x of Inl (g, n) \<Rightarrow> 11
        | Inr (g, row, col, num, n) \<Rightarrow> nat (10 - num)]", goal_cases)
  case 1
  then show ?case by simp
next
  case (2 grid cnt p row col)
  then have "row < 9 \<and> col < 9 \<and> grid row col = 0"
    using findEmptyCell_Some by metis
  then show ?case by (simp add: setCell_same)
next
  case (3 grid row col num cnt)
  then show ?case
    by (auto simp: emptyCount_setCell_less)
next
  case (4 grid row col num cnt x y)
  then have "y = setCell grid row col num"
    using countSolutions_restores_dom(1) [of "setCell grid row col num" cnt]
    by (metis snd_conv)
  with 4 show ?case by auto
next
  case (5 grid row col num cnt)
  then show ?case by auto
qed

text \<open>
  \<^verbatim>\<open>fillGrid\<close> tries the digits in the order \<^verbatim>\<open>shuffleArray\<close> gives; the draws it
  consumes are threaded through the recursion.
\<close>

function fillGrid :: "grid \<Rightarrow> rng \<Rightarrow> bool \<times> grid \<times> rng"
  and fillLoop :: "grid \<Rightarrow> nat \<Rightarrow> nat \<Rightarrow> int list \<Rightarrow> rng \<Rightarrow> bool \<times> grid \<times> rng" where
  "fillGrid grid rng =
     (case findEmptyCell grid of
        None \<Rightarrow> (True, grid, rng)
      | Some (row, col) \<Rightarrow>
          (case shuffleArray [1, 2, 3, 4, 5, 6, 7, 8, 9] rng of
             (numbers, rng') \<Rightarrow> fillLoop grid row col numbers rng'))"
| "fillLoop grid row col [] rng = (False, grid, rng)"
| "fillLoop grid row col (num # nums) rng =
     (if isValidPlacement grid row col num then
        (case fillGrid (setCell grid row col num) rng of
           (True, grid', rng') \<Rightarrow> (True, grid', rng')
         | (False, grid', rng') \<Rightarrow> fillLoop (setCell grid' row col 0) row col nums rng')
      else fillLoop grid row col nums rng)"
  by pat_completeness auto

lemma fillGrid_restores_dom:
  "fillGrid_fillLoop_dom (Inl (g, rng)) \<Longrightarrow> \<not> fst (fillGrid g rng) \<Longrightarrow> fst (snd (fillGrid g rng)) = g"
  "fillGrid_fillLoop_dom (Inr (g, row, col, nums, rng)) \<Longrightarrow> \<not> fst (fillLoop g row col nums rng) \<Longrightarrow>
     fst (snd (fillLoop g row col nums rng)) = g \<or>
     fst (snd (fillLoop g row col nums rng)) = setCell g row col 0"
proof (induct rule: fillGrid_fillLoop.pinduct)
  case (1 grid rng)
  show ?case
  proof (cases "findEmptyCell grid")
    case None
    with 1 show ?thesis by (simp add: fillGrid.psimps)
  next
    case (Some p)
    obtain row col where p: "p = (row, col)" by (cases p)
    obtain numbers rng' where sh: "shuffleArray [1::int, 2, 3, 4, 5, 6, 7, 8, 9] rng = (numbers, rng')"
      by (cases "shuffleArray [1::int, 2, 3, 4, 5, 6, 7, 8, 9] rng")
    from Some p have z: "grid row col = 0" using findEmptyCell_Some by blast
    from 1(1) Some p sh have eq: "fillGrid grid rng = fillLoop grid row col numbers rng'"
      by (simp add: fillGrid.psimps)
    from 1(2) [OF Some p [symmetric] sh [symmetric]] 1(3) z eq
    show ?thesis by (simp add: setCell_same)
  qed
next
  case (2 grid row col rng)
  then show ?case by (simp add: fillLoop.psimps)
next
  case (3 grid row col num nums rng)
  note eq = fillLoop.psimps(2) [OF 3(1)]
  show ?case
  proof (cases "isValidPlacement grid row col num")
    case False
    with 3(4,5) show ?thesis by (simp add: eq)
  next
    case v: True
    obtain ok g' rng' where r: "fillGrid (setCell grid row col num) rng = (ok, g', rng')"
      by (cases "fillGrid (setCell grid row col num) rng")
    show ?thesis
    proof (cases ok)
      case True
      with v r 3(5) show ?thesis by (simp add: eq)
    next
      case False
      with 3(2) v r have g': "g' = setCell grid row col num" by simp
      from v r False have e2: "fillLoop grid row col (num # nums) rng =
           fillLoop (setCell grid row col 0) row col nums rng'"
        by (simp add: eq g')
      from 3(3) [OF v r [symmetric] _ refl] False 3(5) e2 g'
      show ?thesis by simp
    qed
  qed
qed

termination fillGrid
proof (relation "measures
    [\<lambda>x. case x of Inl (g, rng) \<Rightarrow> 0
        | Inr (g, row, col, nums, rng) \<Rightarrow> (if row < 9 \<and> col < 9 \<and> 0 \<notin> set nums then 0 else 1),
     \<lambda>x. case x of Inl (g, rng) \<Rightarrow> emptyCount g
        | Inr (g, row, col, nums, rng) \<Rightarrow> emptyCount (setCell g row col 0),
     \<lambda>x. case x of Inl (g, rng) \<Rightarrow> 10
        | Inr (g, row, col, nums, rng) \<Rightarrow> length nums]", goal_cases)
  case 1
  then show ?case by simp
next
  case (2 grid rng p row col numbers rng')
  then have c: "row < 9 \<and> col < 9 \<and> grid row col = 0"
    using findEmptyCell_Some by metis
  from 2 have n: "numbers = fst (shuffleArray [1, 2, 3, 4, 5, 6, 7, 8, 9] rng)"
    by (metis fst_conv)
  have "set numbers = set [1, 2, 3, 4, 5, 6, 7, 8, 9]" "length numbers = 9"
    unfolding n by (simp_all only: set_shuffleArray length_shuffleArray, simp_all)
  with c show ?case by (auto simp add: setCell_same)
next
  case (3 grid row col num nums rng)
  then show ?case
    by (auto simp: emptyCount_setCell_less)
next
  case (4 grid row col num nums rng x y xa ya)
  then have "xa = setCell grid row col num"
    using fillGrid_restores_dom(1) [of "setCell grid row col num" rng]
    by (metis fst_conv snd_conv)
  with 4 show ?case by auto
next
  case (5 grid row col num nums rng)
  then show ?case by auto
qed

declare solve.simps [simp del] solveLoop.simps [simp del]
declare countSolutions.simps [simp del] countLoop.simps [simp del]
declare fillGrid.simps [simp del] fillLoop.simps [simp del]

section \<open>Generator, carver and solver entry points\<close>

text \<open>
  The difficulties and the table \<^verbatim>\<open>DIFFICULTY_CONFIGS\<close>; the fields \<^verbatim>\<open>min\<close> and \<^verbatim>\<open>max\<close> of
  \<^verbatim>\<open>visibleCells\<close> are \<open>min_cells\<close> and \<open>max_cells\<close>.
\<close>

datatype Difficulty = beginner | intermediate | hard | expert

record CellRange =
  min_cells :: int
  max_cells :: int

record DifficultyConfig =
  name :: Difficulty
  visibleCells :: CellRange

fun DIFFICULTY_CONFIGS :: "Difficulty \<Rightarrow> DifficultyConfig" where
  "DIFFICULTY_CONFIGS beginner =
     \<lparr>name = beginner, visibleCells = \<lparr>min_cells = 36, max_cells = 40\<rparr>\<rparr>"
| "DIFFICULTY_CONFIGS intermediate =
     \<lparr>name = intermediate, visibleCells = \<lparr>min_cells = 32, max_cells = 36\<rparr>\<rparr>"
| "DIFFICULTY_CONFIGS hard =
     \<lparr>name = hard, visibleCells = \<lparr>min_cells = 28, max_cells = 32\<rparr>\<rparr>"
| "DIFFICULTY_CONFIGS expert =
     \<lparr>name = expert, visibleCells = \<lparr>min_cells = 24, max_cells = 28\<rparr>\<rparr>"

text \<open>
  \<^verbatim>\<open>generateSolution\<close> builds the all-zero grid, calls \<^verbatim>\<open>fillGrid\<close> on it and returns
  the grid, whatever \<^verbatim>\<open>fillGrid\<close> returned.
\<close>

definition generateSolution :: "rng \<Rightarrow> grid \<times> rng" where
  "generateSolution rng = (case fillGrid emptyGrid rng of (ok, grid, rng') \<Rightarrow> (grid, rng'))"

text \<open>
  The loop of \<^verbatim>\<open>createPuzzle\<close> over the shuffled coordinates. It returns the puzzle,
  the counter \<^verbatim>\<open>removed\<close> and the coordinates the iteration has not reached when
  the loop ends: the current coordinate and all later ones when the loop leaves at
  \<^verbatim>\<open>break\<close>, none when the iteration runs to the end of the list.
  \<^verbatim>\<open>countSolutions\<close> runs in place on the puzzle, so the loop goes on with the grid
  that call leaves behind.
\<close>

fun removeCells ::
  "grid \<Rightarrow> (nat \<times> nat) list \<Rightarrow> int \<Rightarrow> int \<Rightarrow> grid \<times> int \<times> (nat \<times> nat) list" where
  "removeCells puzzle [] removed cellsToRemove = (puzzle, removed, [])"
| "removeCells puzzle ((row, col) # rest) removed cellsToRemove =
     (if removed \<ge> cellsToRemove then (puzzle, removed, (row, col) # rest)
      else
        (let temp = puzzle row col
         in case countSolutions (setCell puzzle row col 0) 0 of
              (solutionCount, puzzle') \<Rightarrow>
                if solutionCount = 1
                then removeCells puzzle' rest (removed + 1) cellsToRemove
                else removeCells (setCell puzzle' row col temp) rest removed cellsToRemove))"

text \<open>
  The body of \<^verbatim>\<open>createPuzzle\<close>: the copy of the solution (a grid value here), the
  target drawn from the difficulty's range, the shuffled coordinates and the loop. The
  run keeps the final values of the locals \<^verbatim>\<open>removed\<close> and \<^verbatim>\<open>cellsToRemove\<close> beside the
  returned puzzle, the coordinates of \<^verbatim>\<open>shuffledPositions\<close> the loop has not reached,
  and the random source it leaves behind.
\<close>

record PuzzleRun =
  finalPuzzle :: grid
  finalRemoved :: int
  untried :: "(nat \<times> nat) list"
  removeTarget :: int
  rngAfter :: rng

definition createPuzzleRun :: "grid \<Rightarrow> Difficulty \<Rightarrow> rng \<Rightarrow> PuzzleRun" where
  "createPuzzleRun solution difficulty rng =
     (let puzzle = solution;
          config = DIFFICULTY_CONFIGS difficulty
      in case randomInRange (min_cells (visibleCells config)) (max_cells (visibleCells config)) rng of
           (cellsToShow, rng1) \<Rightarrow>
             (let cellsToRemove = int (GRID_SIZE * GRID_SIZE) - cellsToShow
              in case shuffleArray positions rng1 of
                   (shuffledPositions, rng2) \<Rightarrow>
                     (case removeCells puzzle shuffledPositions 0 cellsToRemove of
                        (puzzle', removed', untried') \<Rightarrow>
                          \<lparr>finalPuzzle = puzzle', finalRemoved = removed',
                           untried = untried', removeTarget = cellsToRemove,
                           rngAfter = rng2\<rparr>)))"

definition createPuzzle :: "grid \<Rightarrow> Difficulty \<Rightarrow> rng \<Rightarrow> grid" where
  "createPuzzle solution difficulty rng = finalPuzzle (createPuzzleRun solution difficulty rng)"

text \<open>
  The run of \<^verbatim>\<open>createPuzzle\<close> exhausted the shuffled coordinate list before it reached
  the removal target: the loop has tried every coordinate and \<^verbatim>\<open>removed\<close> is still
  below \<^verbatim>\<open>cellsToRemove\<close>.
\<close>

definition exhaustedBeforeTarget :: "PuzzleRun \<Rightarrow> bool" where
  "exhaustedBeforeTarget run = (untried run = [] \<and> finalRemoved run < removeTarget run)"

definition solvePuzzle :: "grid \<Rightarrow> grid option" where
  "solvePuzzle puzzle =
     (let solution = puzzle
      in case solve solution of
           (True, solution') \<Rightarrow> Some solution'
         | (False, solution') \<Rightarrow> None)"

section \<open>Solutions and completions\<close>

text \<open>The 27 units, each as the list of its nine coordinates.\<close>

definition rowCells :: "nat \<Rightarrow> (nat \<times> nat) list" where
  "rowCells r = map (\<lambda>c. (r, c)) [0..<GRID_SIZE]"

definition colCells :: "nat \<Rightarrow> (nat \<times> nat) list" where
  "colCells c = map (\<lambda>r. (r, c)) [0..<GRID_SIZE]"

definition blockCells :: "nat \<Rightarrow> (nat \<times> nat) list" where
  "blockCells b =
     map (\<lambda>k. ((b div BLOCK_SIZE) * BLOCK_SIZE + k div BLOCK_SIZE,
               (b mod BLOCK_SIZE) * BLOCK_SIZE + k mod BLOCK_SIZE)) [0..<GRID_SIZE]"

definition units :: "(nat \<times> nat) list list" where
  "units = map rowCells [0..<GRID_SIZE] @ map colCells [0..<GRID_SIZE] @ map blockCells [0..<GRID_SIZE]"

definition unitValues :: "grid \<Rightarrow> (nat \<times> nat) list \<Rightarrow> int list" where
  "unitValues g u = map (\<lambda>(r, c). g r c) u"

text \<open>
  A solution: a complete grid (every cell of every unit holds a digit 1..9) that
  satisfies the constraints (no unit holds a digit twice).
\<close>

definition isSolution :: "grid \<Rightarrow> bool" where
  "isSolution g =
     list_all (\<lambda>u. distinct (unitValues g u) \<and> list_all (\<lambda>v. 1 \<le> v \<and> v \<le> 9) (unitValues g u)) units"

text \<open>Every digit 1..9 occurs exactly once in every row, every column and every block.\<close>

definition eachDigitOnce :: "grid \<Rightarrow> bool" where
  "eachDigitOnce g =
     list_all (\<lambda>u. list_all (\<lambda>d. count_list (unitValues g u) d = 1) [1, 2, 3, 4, 5, 6, 7, 8, 9]) units"

text \<open>No cell of the board is empty.\<close>

definition isFull :: "grid \<Rightarrow> bool" where
  "isFull g = list_all (\<lambda>(r, c). g r c \<noteq> 0) positions"

text \<open>\<open>h\<close> is \<open>g\<close> with some empty cells of the board filled: every other cell is unchanged.\<close>

definition fills :: "grid \<Rightarrow> grid \<Rightarrow> bool" where
  "fills g h = (\<forall>r c. h r c = g r c \<or> (r < GRID_SIZE \<and> c < GRID_SIZE \<and> g r c = 0))"

definition completion :: "grid \<Rightarrow> grid \<Rightarrow> bool" where
  "completion g h = (fills g h \<and> isSolution h)"

definition completions :: "grid \<Rightarrow> grid set" where
  "completions g = {h. completion g h}"

text \<open>
  An internally consistent grid: every non-empty cell holds a digit 1..9 that appears in
  no other cell of its row, column or block.
\<close>

definition consistent :: "grid \<Rightarrow> bool" where
  "consistent g =
     list_all (\<lambda>(r, c). g r c \<noteq> 0 \<longrightarrow> 1 \<le> g r c \<and> g r c \<le> 9 \<and> \<not> appearsElsewhere g r c (g r c)) positions"

text \<open>The number of non-empty cells of the board.\<close>

definition visibleCount :: "grid \<Rightarrow> nat" where
  "visibleCount g = length (filter (\<lambda>(r, c). g r c \<noteq> 0) positions)"

section \<open>Units, solutions and consistency\<close>

lemma sameUnit_sym: "sameUnit r c r' c' = sameUnit r' c' r c"
  by (auto simp: sameUnit_def)

lemma set_rowCells: "set (rowCells r) = {(r', c). r' = r \<and> c < 9}"
  by (auto simp: rowCells_def)

lemma set_colCells: "set (colCells c) = {(r, c'). c' = c \<and> r < 9}"
  by (auto simp: colCells_def)

lemma block_coords:
  fixes k b :: nat
  assumes "k < 9"
  shows "(b div 3 * 3 + k div 3) div 3 = b div 3" "(b mod 3 * 3 + k mod 3) div 3 = b mod 3"
  using assms by auto

lemma set_blockCells:
  "set (blockCells b) = {(r, c). r div 3 = b div 3 \<and> c div 3 = b mod 3}"
proof (intro set_eqI iffI)
  fix p assume "p \<in> set (blockCells b)"
  then obtain k where k: "k < 9" "p = (b div 3 * 3 + k div 3, b mod 3 * 3 + k mod 3)"
    by (auto simp: blockCells_def)
  then show "p \<in> {(r, c). r div 3 = b div 3 \<and> c div 3 = b mod 3}"
    using block_coords [OF k(1), of b] by simp
next
  fix p assume p: "p \<in> {(r, c). r div 3 = b div 3 \<and> c div 3 = b mod 3}"
  obtain r c where rc: "p = (r, c)" by (cases p)
  with p have d: "r div 3 = b div 3" "c div 3 = b mod 3" by simp_all
  let ?k = "(r mod 3) * 3 + c mod 3"
  have k: "?k < 9" "?k div 3 = r mod 3" "?k mod 3 = c mod 3" by auto
  have "r = b div 3 * 3 + ?k div 3" using d k by (metis div_mult_mod_eq)
  moreover have "c = b mod 3 * 3 + ?k mod 3" using d k by (metis div_mult_mod_eq)
  ultimately have "p = (\<lambda>k. (b div 3 * 3 + k div 3, b mod 3 * 3 + k mod 3)) ?k"
    using rc by simp
  with k(1) show "p \<in> set (blockCells b)"
    unfolding blockCells_def by (metis (no_types, lifting) atLeastLessThan_iff image_eqI le0 set_map set_upt)
qed

lemma distinct_rowCells: "distinct (rowCells r)"
  by (simp add: rowCells_def distinct_map inj_on_def)

lemma distinct_colCells: "distinct (colCells c)"
  by (simp add: colCells_def distinct_map inj_on_def)

lemma distinct_blockCells: "distinct (blockCells b)"
proof -
  have "inj_on (\<lambda>k. (b div 3 * 3 + k div 3, b mod 3 * 3 + k mod 3)) {0..<9}"
  proof (rule inj_onI)
    fix x y :: nat
    assume "(b div 3 * 3 + x div 3, b mod 3 * 3 + x mod 3) = (b div 3 * 3 + y div 3, b mod 3 * 3 + y mod 3)"
    then have "x div 3 = y div 3" "x mod 3 = y mod 3" by simp_all
    then show "x = y" by (metis div_mult_mod_eq)
  qed
  then show ?thesis by (simp add: blockCells_def distinct_map)
qed

lemma length_unit_cells:
  "length (rowCells r) = 9" "length (colCells c) = 9" "length (blockCells b) = 9"
  by (simp_all add: rowCells_def colCells_def blockCells_def)

lemma units_cases:
  "u \<in> set units \<longleftrightarrow> (\<exists>r<9. u = rowCells r) \<or> (\<exists>c<9. u = colCells c) \<or> (\<exists>b<9. u = blockCells b)"
  by (auto simp: units_def)

lemma unit_distinct: "u \<in> set units \<Longrightarrow> distinct u"
  by (auto simp: units_cases distinct_rowCells distinct_colCells distinct_blockCells)

lemma unit_length: "u \<in> set units \<Longrightarrow> length u = 9"
  by (auto simp: units_cases length_unit_cells)

lemma div3_less: "(x::nat) div 3 < 3 \<longleftrightarrow> x < 9"
  by (simp add: div_less_iff_less_mult)

lemma block_bound:
  fixes r b :: nat
  assumes "r div 3 = b div 3" "b < 9"
  shows "r < 9"
  using assms div3_less by metis

lemma block_bound':
  fixes c b :: nat
  assumes "c div 3 = b mod 3"
  shows "c < 9"
proof -
  have "b mod 3 < 3" by simp
  with assms have "c div 3 < 3" by simp
  then show ?thesis by (simp only: div3_less)
qed

lemma unit_on_board:
  assumes "u \<in> set units" "(r, c) \<in> set u"
  shows "r < 9 \<and> c < 9"
proof -
  from assms(1) consider r' where "r' < 9" "u = rowCells r'"
    | c' where "c' < 9" "u = colCells c'"
    | b where "b < 9" "u = blockCells b"
    unfolding units_cases by blast
  then show ?thesis
  proof cases
    case 1
    with assms(2) show ?thesis by (simp add: set_rowCells)
  next
    case 2
    with assms(2) show ?thesis by (simp add: set_colCells)
  next
    case 3
    with assms(2) have "r div 3 = b div 3" "c div 3 = b mod 3"
      by (simp_all add: set_blockCells)
    with 3(1) show ?thesis using block_bound block_bound' by blast
  qed
qed

lemma unit_sameUnit:
  assumes "u \<in> set units" "(r, c) \<in> set u" "(r', c') \<in> set u"
  shows "sameUnit r c r' c'"
proof -
  from assms(1) consider r0 where "u = rowCells r0"
    | c0 where "u = colCells c0"
    | b where "u = blockCells b"
    unfolding units_cases by blast
  then show ?thesis
  proof cases
    case 1
    with assms(2,3) show ?thesis by (simp add: set_rowCells sameUnit_def)
  next
    case 2
    with assms(2,3) show ?thesis by (simp add: set_colCells sameUnit_def)
  next
    case 3
    with assms(2,3) show ?thesis by (simp add: set_blockCells sameUnit_def)
  qed
qed

lemma sameUnit_common_unit:
  assumes "r < 9" "c < 9" "r' < 9" "c' < 9" "sameUnit r c r' c'"
  shows "\<exists>u\<in>set units. (r, c) \<in> set u \<and> (r', c') \<in> set u"
proof -
  from assms(5) consider "r' = r" | "c' = c" | "r' div 3 = r div 3 \<and> c' div 3 = c div 3"
    by (auto simp: sameUnit_def)
  then show ?thesis
  proof cases
    case 1
    have "rowCells r \<in> set units" using assms(1) by (auto simp: units_cases)
    moreover have "(r, c) \<in> set (rowCells r)" "(r', c') \<in> set (rowCells r)"
      using 1 assms by (simp_all add: set_rowCells)
    ultimately show ?thesis by blast
  next
    case 2
    have "colCells c \<in> set units" using assms(2) by (auto simp: units_cases)
    moreover have "(r, c) \<in> set (colCells c)" "(r', c') \<in> set (colCells c)"
      using 2 assms by (simp_all add: set_colCells)
    ultimately show ?thesis by blast
  next
    case 3
    let ?b = "r div 3 * 3 + c div 3"
    have k: "c div 3 < 3" "r div 3 < 3"
      using assms(1,2) by (simp_all only: div3_less)
    then have b: "?b < 9" "?b div 3 = r div 3" "?b mod 3 = c div 3"
      by simp_all
    have "blockCells ?b \<in> set units" using b(1) units_cases by blast
    moreover have "(r, c) \<in> set (blockCells ?b)" "(r', c') \<in> set (blockCells ?b)"
      using 3 b by (simp_all add: set_blockCells)
    ultimately show ?thesis by blast
  qed
qed

lemma isSolution_iff:
  "isSolution g \<longleftrightarrow>
     (\<forall>r<9. \<forall>c<9. 1 \<le> g r c \<and> g r c \<le> 9) \<and>
     (\<forall>r<9. \<forall>c<9. \<forall>r'<9. \<forall>c'<9.
        sameUnit r c r' c' \<and> \<not> (r' = r \<and> c' = c) \<longrightarrow> g r' c' \<noteq> g r c)"
  (is "?L \<longleftrightarrow> ?R1 \<and> ?R2")
proof (intro iffI conjI)
  assume L: ?L
  then have du: "\<And>u. u \<in> set units \<Longrightarrow> distinct (unitValues g u)"
    and ru: "\<And>u p. u \<in> set units \<Longrightarrow> p \<in> set u \<Longrightarrow> 1 \<le> (case p of (r, c) \<Rightarrow> g r c) \<and> (case p of (r, c) \<Rightarrow> g r c) \<le> 9"
    by (auto simp: isSolution_def list_all_iff unitValues_def)
  show ?R1
  proof (intro allI impI)
    fix r c :: nat assume "r < 9" "c < 9"
    then have "rowCells r \<in> set units" "(r, c) \<in> set (rowCells r)"
      by (auto simp: units_cases set_rowCells)
    from ru [OF this] show "1 \<le> g r c \<and> g r c \<le> 9" by simp
  qed
  show ?R2
  proof (intro allI impI)
    fix r c r' c' :: nat
    assume b: "r < 9" "c < 9" "r' < 9" "c' < 9"
      and s: "sameUnit r c r' c' \<and> \<not> (r' = r \<and> c' = c)"
    with sameUnit_common_unit obtain u where u: "u \<in> set units" "(r, c) \<in> set u" "(r', c') \<in> set u"
      by blast
    from du [OF u(1)] have "inj_on (\<lambda>(r, c). g r c) (set u)"
      unfolding unitValues_def by (simp add: distinct_map)
    with u(2,3) s show "g r' c' \<noteq> g r c"
      by (auto simp: inj_on_def)
  qed
next
  assume R: "?R1 \<and> ?R2"
  show ?L
    unfolding isSolution_def list_all_iff
  proof (rule ballI)
    fix u assume u: "u \<in> set units"
    have "inj_on (\<lambda>(r, c). g r c) (set u)"
    proof (rule inj_onI)
      fix p q assume pq: "p \<in> set u" "q \<in> set u"
        and e: "(case p of (r, c) \<Rightarrow> g r c) = (case q of (r, c) \<Rightarrow> g r c)"
      obtain r c r' c' where p: "p = (r, c)" and q: "q = (r', c')" by (cases p, cases q)
      from u pq p q have b: "r < 9 \<and> c < 9" "r' < 9 \<and> c' < 9" "sameUnit r c r' c'"
        using unit_on_board unit_sameUnit by blast+
      from e p q have "g r' c' = g r c" by simp
      with R b have "r' = r \<and> c' = c" by blast
      with p q show "p = q" by simp
    qed
    with unit_distinct [OF u] have d: "distinct (unitValues g u)"
      by (simp add: unitValues_def distinct_map)
    have "\<forall>v\<in>set (unitValues g u). 1 \<le> v \<and> v \<le> 9"
    proof
      fix v assume v: "v \<in> set (unitValues g u)"
      then obtain r c where "(r, c) \<in> set u" "v = g r c"
        by (auto simp: unitValues_def)
      with u R unit_on_board show "1 \<le> v \<and> v \<le> 9" by blast
    qed
    with d show "distinct (unitValues g u) \<and> (\<forall>v\<in>set (unitValues g u). 1 \<le> v \<and> v \<le> 9)"
      by simp
  qed
qed

lemma consistent_iff:
  "consistent g \<longleftrightarrow>
     (\<forall>r<9. \<forall>c<9. g r c \<noteq> 0 \<longrightarrow> 1 \<le> g r c \<and> g r c \<le> 9 \<and>
        (\<forall>r'<9. \<forall>c'<9. sameUnit r c r' c' \<and> \<not> (r' = r \<and> c' = c) \<longrightarrow> g r' c' \<noteq> g r c))"
  unfolding consistent_def list_all_iff set_positions appearsElsewhere_iff
  by auto

lemma isFull_iff: "isFull g \<longleftrightarrow> (\<forall>r<9. \<forall>c<9. g r c \<noteq> 0)"
  unfolding isFull_def list_all_iff set_positions by auto

lemma isFull_findEmptyCell: "isFull g \<longleftrightarrow> findEmptyCell g = None"
  by (simp add: isFull_iff findEmptyCell_None)

lemma isSolution_consistent_full: "isSolution g \<longleftrightarrow> consistent g \<and> isFull g"
proof
  assume "isSolution g"
  then show "consistent g \<and> isFull g"
    unfolding isSolution_iff consistent_iff isFull_iff by (metis not_one_le_zero)
next
  assume "consistent g \<and> isFull g"
  then show "isSolution g"
    unfolding isSolution_iff consistent_iff isFull_iff by blast
qed

section \<open>Completions of a grid\<close>

lemma fills_refl: "fills g g"
  by (simp add: fills_def)

lemma fills_trans: "fills g h \<Longrightarrow> fills h k \<Longrightarrow> fills g k"
  unfolding fills_def by metis

lemma fills_setCell: "row < 9 \<Longrightarrow> col < 9 \<Longrightarrow> g row col = 0 \<Longrightarrow> fills g (setCell g row col v)"
  by (simp add: fills_def setCell_apply)

lemma fills_nonzero: "fills g h \<Longrightarrow> g r c \<noteq> 0 \<Longrightarrow> h r c = g r c"
  unfolding fills_def by metis

lemma fills_outside: "fills g h \<Longrightarrow> \<not> (r < 9 \<and> c < 9) \<Longrightarrow> h r c = g r c"
  unfolding fills_def by metis

lemma fills_full_eq:
  assumes "fills g h" "isFull g"
  shows "h = g"
proof (rule ext, rule ext)
  fix r c
  show "h r c = g r c"
  proof (cases "r < 9 \<and> c < 9")
    case True
    with assms(2) have "g r c \<noteq> 0" by (simp add: isFull_iff)
    with assms(1) show ?thesis by (rule fills_nonzero)
  next
    case False
    with assms(1) show ?thesis by (rule fills_outside)
  qed
qed

lemma consistent_setCell:
  assumes c: "consistent g" and b: "row < 9" "col < 9" and z: "g row col = 0"
    and n: "1 \<le> num" "num \<le> 9" and v: "isValidPlacement g row col num"
  shows "consistent (setCell g row col num)"
  unfolding consistent_iff
proof (intro allI impI)
  fix r c'
  assume rb: "r < 9" and cb: "c' < 9" and nz: "setCell g row col num r c' \<noteq> 0"
  from v b have val: "\<And>r c. r < 9 \<Longrightarrow> c < 9 \<Longrightarrow> sameUnit row col r c \<Longrightarrow> g r c \<noteq> num"
    by (simp add: isValidPlacement_iff)
  show "1 \<le> setCell g row col num r c' \<and> setCell g row col num r c' \<le> 9 \<and>
        (\<forall>r'<9. \<forall>c''<9. sameUnit r c' r' c'' \<and> \<not> (r' = r \<and> c'' = c') \<longrightarrow>
           setCell g row col num r' c'' \<noteq> setCell g row col num r c')"
  proof (cases "r = row \<and> c' = col")
    case True
    then show ?thesis using n val by (auto simp: setCell_apply)
  next
    case False
    with nz have gnz: "g r c' \<noteq> 0" by (auto simp: setCell_apply)
    from c rb cb gnz have rng: "1 \<le> g r c' \<and> g r c' \<le> 9"
      and oth: "\<And>r' c''. r' < 9 \<Longrightarrow> c'' < 9 \<Longrightarrow> sameUnit r c' r' c'' \<Longrightarrow> \<not> (r' = r \<and> c'' = c')
                 \<Longrightarrow> g r' c'' \<noteq> g r c'"
      unfolding consistent_iff by blast+
    have "\<And>r' c''. r' < 9 \<Longrightarrow> c'' < 9 \<Longrightarrow> sameUnit r c' r' c'' \<Longrightarrow> \<not> (r' = r \<and> c'' = c')
            \<Longrightarrow> setCell g row col num r' c'' \<noteq> g r c'"
    proof -
      fix r' c''
      assume a: "r' < 9" "c'' < 9" "sameUnit r c' r' c''" "\<not> (r' = r \<and> c'' = c')"
      show "setCell g row col num r' c'' \<noteq> g r c'"
      proof (cases "r' = row \<and> c'' = col")
        case True
        with a(3) have "sameUnit row col r c'" by (simp add: sameUnit_sym)
        from val [OF rb cb this] True show ?thesis by (simp add: setCell_apply)
      next
        case False
        with oth [OF a] show ?thesis by (auto simp: setCell_apply)
      qed
    qed
    note rest = this
    from False have e: "setCell g row col num r c' = g r c'" by (auto simp: setCell_apply)
    from rng rest show ?thesis unfolding e by blast
  qed
qed

lemma invalid_no_completion:
  assumes b: "row < 9" "col < 9" and z: "g row col = 0" and n: "num \<noteq> 0"
    and v: "\<not> isValidPlacement g row col num"
  shows "\<not> completion (setCell g row col num) h"
proof
  assume h: "completion (setCell g row col num) h"
  from v b obtain r c where rc: "r < 9" "c < 9" "sameUnit row col r c" "g r c = num"
    by (auto simp: isValidPlacement_iff)
  with z n have ne: "\<not> (r = row \<and> c = col)" by auto
  from h have f: "fills (setCell g row col num) h" and s: "isSolution h"
    by (simp_all add: completion_def)
  have "h row col = num"
    using fills_nonzero [OF f, of row col] n by (simp add: setCell_apply)
  moreover have "h r c = num"
    using fills_nonzero [OF f, of r c] n rc(4) ne by (auto simp: setCell_apply)
  moreover from s b rc(1,2,3) ne have "h r c \<noteq> h row col"
    unfolding isSolution_iff by blast
  ultimately show False by simp
qed

lemma completion_setCell:
  assumes "completion (setCell g row col d) h" "row < 9" "col < 9" "g row col = 0"
  shows "completion g h"
  using assms fills_trans [OF fills_setCell] by (auto simp: completion_def)

lemma completion_setCell_value:
  assumes "completion (setCell g row col d) h" "d \<noteq> 0"
  shows "h row col = d"
proof -
  from assms(1) have "fills (setCell g row col d) h" by (simp add: completion_def)
  from fills_nonzero [OF this, of row col] assms(2) show ?thesis
    by (simp add: setCell_apply)
qed

lemma completion_step:
  assumes "completion g h"
  shows "completion (setCell g row col (h row col)) h"
proof -
  from assms have f: "fills g h" and s: "isSolution h" by (simp_all add: completion_def)
  have "fills (setCell g row col (h row col)) h"
    unfolding fills_def
  proof (intro allI)
    fix r c
    show "h r c = setCell g row col (h row col) r c \<or>
          r < 9 \<and> c < 9 \<and> setCell g row col (h row col) r c = 0"
      using f unfolding fills_def by (cases "r = row \<and> c = col") (auto simp: setCell_apply)
  qed
  with s show ?thesis by (simp add: completion_def)
qed

lemma completion_range:
  assumes "completion g h" "r < 9" "c < 9"
  shows "1 \<le> h r c \<and> h r c \<le> 9"
  using assms unfolding completion_def isSolution_iff by blast

lemma completions_split:
  assumes "row < 9" "col < 9" "g row col = 0"
  shows "completions g = (\<Union>d\<in>{1..9}. completions (setCell g row col d))"
proof (intro set_eqI iffI)
  fix h assume "h \<in> completions g"
  then have h: "completion g h" by (simp add: completions_def)
  from completion_range [OF h assms(1,2)] have "h row col \<in> {1..9}" by simp
  moreover from completion_step [OF h] have "h \<in> completions (setCell g row col (h row col))"
    by (simp add: completions_def)
  ultimately show "h \<in> (\<Union>d\<in>{1..9}. completions (setCell g row col d))" by blast
next
  fix h assume "h \<in> (\<Union>d\<in>{1..9}. completions (setCell g row col d))"
  then obtain d where "completion (setCell g row col d) h" by (auto simp: completions_def)
  from completion_setCell [OF this assms] show "h \<in> completions g"
    by (simp add: completions_def)
qed

lemma completions_full:
  assumes "consistent g" "isFull g"
  shows "completions g = {g}"
proof -
  from assms have "isSolution g" by (simp add: isSolution_consistent_full)
  then have "g \<in> completions g" by (simp add: completions_def completion_def fills_refl)
  moreover have "\<And>h. h \<in> completions g \<Longrightarrow> h = g"
    using fills_full_eq [OF _ assms(2)] by (simp add: completions_def completion_def)
  ultimately show ?thesis by blast
qed

lemma finite_completions: "finite (completions g)"
proof -
  let ?S = "{h. fills g h \<and> (\<forall>r<9. \<forall>c<9. 1 \<le> h r c \<and> h r c \<le> 9)}"
  let ?F = "\<lambda>h::grid. map (\<lambda>(r, c). h r c) positions"
  have inj: "inj_on ?F ?S"
  proof (rule inj_onI)
    fix h k assume h: "h \<in> ?S" and k: "k \<in> ?S" and e: "?F h = ?F k"
    show "h = k"
    proof (rule ext, rule ext)
      fix r c
      show "h r c = k r c"
      proof (cases "r < 9 \<and> c < 9")
        case True
        then have "(r, c) \<in> set positions" by (simp add: set_positions)
        with e have "(case (r, c) of (r, c) \<Rightarrow> h r c) = (case (r, c) of (r, c) \<Rightarrow> k r c)"
          by (simp only: map_eq_conv)
        then show ?thesis by simp
      next
        case False
        with h k show ?thesis using fills_outside by (metis (mono_tags, lifting) mem_Collect_eq)
      qed
    qed
  qed
  have "?F ` ?S \<subseteq> {xs. set xs \<subseteq> {1..9} \<and> length xs = 81}"
    by (auto simp: set_positions length_positions)
  moreover have "finite {xs::int list. set xs \<subseteq> {1..9} \<and> length xs = 81}"
    by (rule finite_lists_length_eq) simp
  ultimately have "finite (?F ` ?S)" by (rule finite_subset)
  then have "finite ?S" using inj by (rule finite_imageD)
  moreover have "completions g \<subseteq> ?S"
    by (auto simp: completions_def completion_def isSolution_iff)
  ultimately show ?thesis by (rule rev_finite_subset)
qed

section \<open>The solution counter\<close>

lemma countSolutions_grid:
  "snd (countSolutions g n) = g"
  "snd (countLoop g row col num n) = g \<or> snd (countLoop g row col num n) = setCell g row col 0"
proof (induct g n and g row col num n rule: countSolutions_countLoop.induct)
  case (1 grid cnt)
  show ?case
  proof (cases "cnt > 1")
    case True
    then show ?thesis by (simp add: countSolutions.simps)
  next
    case c: False
    show ?thesis
    proof (cases "findEmptyCell grid")
      case None
      with c show ?thesis by (simp add: countSolutions.simps)
    next
      case (Some p)
      obtain row col where p: "p = (row, col)" by (cases p)
      from Some p have z: "grid row col = 0" using findEmptyCell_Some by blast
      from c Some p have eq: "countSolutions grid cnt = countLoop grid row col 1 cnt"
        by (simp add: countSolutions.simps)
      from 1 [OF c Some p [symmetric]] z eq show ?thesis by (simp add: setCell_same)
    qed
  qed
next
  case (2 grid row col num cnt)
  note eq = countLoop.simps [of grid row col num cnt]
  show ?case
  proof (cases "num \<le> 9")
    case False
    then show ?thesis by (simp add: eq)
  next
    case le: True
    show ?thesis
    proof (cases "isValidPlacement grid row col num")
      case False
      with le 2(3) show ?thesis by (simp add: eq)
    next
      case v: True
      obtain n' g' where r: "countSolutions (setCell grid row col num) cnt = (n', g')"
        by (cases "countSolutions (setCell grid row col num) cnt")
      with 2(1) le v have g': "g' = setCell grid row col num" by simp
      from le v r have e2: "countLoop grid row col num cnt =
           countLoop (setCell grid row col 0) row col (num + 1) n'"
        by (simp add: eq g')
      from 2(2) [OF le v r [symmetric]] e2 g' show ?thesis by simp
    qed
  qed
qed

text \<open>
  What the counter becomes when a search that finds \<open>a\<close> completions starts from the
  counter \<open>n\<close>: nothing is added once the counter is above 1, and it stops at 2.
\<close>

definition cappedCount :: "nat \<Rightarrow> nat \<Rightarrow> nat" where
  "cappedCount n a = (if n > 1 then n else min 2 (n + a))"

lemma cappedCount_compose: "cappedCount (cappedCount n a) b = cappedCount n (a + b)"
  by (auto simp: cappedCount_def min_def)

lemma cappedCount_none: "cappedCount n 0 = n"
  by (auto simp: cappedCount_def min_def)

lemma completions_range_disjoint:
  assumes "num \<ge> 1"
  shows "completions (setCell g row col num) \<inter> (\<Union>d\<in>{num + 1..9}. completions (setCell g row col d)) = {}"
proof -
  have "\<And>h d. h \<in> completions (setCell g row col num) \<Longrightarrow> d \<in> {num + 1..9} \<Longrightarrow>
          h \<in> completions (setCell g row col d) \<Longrightarrow> False"
  proof -
    fix h d
    assume a: "h \<in> completions (setCell g row col num)" "d \<in> {num + 1..9}"
      "h \<in> completions (setCell g row col d)"
    from a(1) assms have "h row col = num"
      using completion_setCell_value [of g row col num h] by (simp add: completions_def)
    moreover from a(2,3) assms have "h row col = d"
      using completion_setCell_value [of g row col d h] by (simp add: completions_def)
    ultimately show False using a(2) by simp
  qed
  then show ?thesis by blast
qed

lemma digits_from: "num \<le> 9 \<Longrightarrow> {num..9::int} = insert num {num + 1..9}"
  by auto

lemma countSolutions_value:
  "consistent g \<Longrightarrow> countSolutions g n = (cappedCount n (card (completions g)), g)"
  "consistent g \<Longrightarrow> row < 9 \<Longrightarrow> col < 9 \<Longrightarrow> g row col = 0 \<Longrightarrow> 1 \<le> num \<Longrightarrow>
     countLoop g row col num n =
       (cappedCount n (card (\<Union>d\<in>{num..9}. completions (setCell g row col d))), g)"
proof (induct g n and g row col num n rule: countSolutions_countLoop.induct)
  case (1 grid cnt)
  show ?case
  proof (cases "cnt > 1")
    case True
    then show ?thesis by (simp add: countSolutions.simps cappedCount_def)
  next
    case c: False
    show ?thesis
    proof (cases "findEmptyCell grid")
      case None
      then have "isFull grid" by (simp add: isFull_findEmptyCell)
      with 1(2) have "completions grid = {grid}" by (rule completions_full)
      with c None show ?thesis by (simp add: countSolutions.simps cappedCount_def)
    next
      case (Some p)
      obtain row col where p: "p = (row, col)" by (cases p)
      from Some p have z: "row < 9" "col < 9" "grid row col = 0"
        using findEmptyCell_Some by blast+
      from c Some p have eq: "countSolutions grid cnt = countLoop grid row col 1 cnt"
        by (simp add: countSolutions.simps)
      have sp: "completions grid = (\<Union>d\<in>{1..9}. completions (setCell grid row col d))"
        using z by (rule completions_split)
      from 1(1) [OF c Some p [symmetric] 1(2) z] eq
      show ?thesis unfolding sp by simp
    qed
  qed
next
  case (2 grid row col num cnt)
  note eq = countLoop.simps [of grid row col num cnt]
  note b = 2(5,6,7)
  let ?A = "completions (setCell grid row col num)"
  let ?B = "\<Union>d\<in>{num + 1..9}. completions (setCell grid row col d)"
  show ?case
  proof (cases "num \<le> 9")
    case False
    then show ?thesis by (simp add: eq cappedCount_none)
  next
    case le: True
    have un: "(\<Union>d\<in>{num..9}. completions (setCell grid row col d)) = ?A \<union> ?B"
      by (simp add: digits_from [OF le])
    have fin: "finite ?A" "finite ?B"
      by (simp_all add: finite_completions)
    have dis: "?A \<inter> ?B = {}"
      using 2(8) by (rule completions_range_disjoint)
    have cardU: "card (?A \<union> ?B) = card ?A + card ?B"
      using fin dis by (rule card_Un_disjoint)
    show ?thesis
    proof (cases "isValidPlacement grid row col num")
      case False
      have nz: "num \<noteq> 0" using 2(8) by simp
      have "\<And>h. \<not> completion (setCell grid row col num) h"
        using b(1) b(2) b(3) nz False by (rule invalid_no_completion)
      then have "?A = {}"
        by (auto simp: completions_def)
      moreover from 2(3) [OF le False 2(4) b] 2(8)
      have "countLoop grid row col (num + 1) cnt = (cappedCount cnt (card ?B), grid)" by simp
      ultimately show ?thesis using le False un by (simp add: eq)
    next
      case v: True
      let ?g1 = "setCell grid row col num"
      have c1: "consistent ?g1"
        using 2(4) b 2(8) le v by (rule consistent_setCell)
      obtain n' g' where r: "countSolutions ?g1 cnt = (n', g')"
        by (cases "countSolutions ?g1 cnt")
      from 2(1) [OF le v c1] r
      have n_eq: "n' = cappedCount cnt (card ?A)" and g_eq: "g' = ?g1"
        by simp_all
      have restored: "setCell g' row col 0 = grid"
        unfolding g_eq using b(3) by (simp add: setCell_same)
      from 2(2) [OF le v r [symmetric]] restored 2(4) b 2(8)
      have "countLoop grid row col (num + 1) n' = (cappedCount n' (card ?B), grid)" by simp
      moreover from le v r restored have "countLoop grid row col num cnt = countLoop grid row col (num + 1) n'"
        by (simp add: eq)
      ultimately show ?thesis
        unfolding un cardU n_eq by (simp add: cappedCount_compose)
    qed
  qed
qed

section \<open>The puzzle carver\<close>

lemma visibleCount_card:
  "visibleCount g = card {(r, c). r < 9 \<and> c < 9 \<and> g r c \<noteq> 0}"
proof -
  have "visibleCount g = card ({p. case p of (r, c) \<Rightarrow> g r c \<noteq> 0} \<inter> set positions)"
    unfolding visibleCount_def using distinct_positions by (rule distinct_length_filter)
  also have "{p. case p of (r, c) \<Rightarrow> g r c \<noteq> 0} \<inter> set positions = {(r, c). r < 9 \<and> c < 9 \<and> g r c \<noteq> 0}"
    by (auto simp: set_positions)
  finally show ?thesis .
qed

lemma visibleCount_full: "isFull g \<Longrightarrow> visibleCount g = 81"
proof -
  assume "isFull g"
  then have "filter (\<lambda>(r, c). g r c \<noteq> 0) positions = positions"
    by (simp add: isFull_def list_all_iff)
  then show ?thesis by (simp add: visibleCount_def length_positions)
qed

lemma visibleCount_clear:
  assumes "row < 9" "col < 9" "g row col \<noteq> 0"
  shows "visibleCount (setCell g row col 0) + 1 = visibleCount g"
proof -
  let ?A = "{(r, c). r < 9 \<and> c < 9 \<and> g r c \<noteq> 0}"
  have "?A \<subseteq> {..<9} \<times> {..<9}" by auto
  then have fin: "finite ?A" by (rule finite_subset) simp
  have d: "{(r, c). r < 9 \<and> c < 9 \<and> setCell g row col 0 r c \<noteq> 0} = ?A - {(row, col)}"
    by (auto simp: setCell_apply)
  have "(row, col) \<in> ?A" using assms by simp
  with fin have "card ?A = Suc (card (?A - {(row, col)}))"
    by (rule card.remove)
  then show ?thesis
    unfolding visibleCount_card d by simp
qed

lemma fills_solution_consistent:
  assumes f: "fills g s" and s: "isSolution s"
  shows "consistent g"
  unfolding consistent_iff
proof (intro allI impI)
  fix r c assume b: "r < 9" "c < 9" and nz: "g r c \<noteq> 0"
  from fills_nonzero [OF f nz] have e: "g r c = s r c" by simp
  have "\<And>r' c'. r' < 9 \<Longrightarrow> c' < 9 \<Longrightarrow> sameUnit r c r' c' \<Longrightarrow> \<not> (r' = r \<and> c' = c) \<Longrightarrow> g r' c' \<noteq> g r c"
  proof -
    fix r' c' assume a: "r' < 9" "c' < 9" "sameUnit r c r' c'" "\<not> (r' = r \<and> c' = c)"
    from s b a have ne: "s r' c' \<noteq> s r c" unfolding isSolution_iff by blast
    show "g r' c' \<noteq> g r c"
    proof (cases "g r' c' = 0")
      case True
      with nz show ?thesis by simp
    next
      case False
      from fills_nonzero [OF f False] ne e show ?thesis by simp
    qed
  qed
  moreover from s b e have "1 \<le> g r c \<and> g r c \<le> 9" unfolding isSolution_iff by simp
  ultimately show "1 \<le> g r c \<and> g r c \<le> 9 \<and>
     (\<forall>r'<9. \<forall>c'<9. sameUnit r c r' c' \<and> \<not> (r' = r \<and> c' = c) \<longrightarrow> g r' c' \<noteq> g r c)"
    by blast
qed

lemma fills_clear:
  assumes "fills g s" "row < 9" "col < 9"
  shows "fills (setCell g row col 0) s"
  using assms unfolding fills_def by (auto simp: setCell_apply)

text \<open>One step of the loop of \<^verbatim>\<open>createPuzzle\<close> on a puzzle that is a part of the solution.\<close>

lemma removeCells_step:
  assumes s: "isSolution s" and f: "fills puzzle s" and b: "row < 9" "col < 9"
  shows "countSolutions (setCell puzzle row col 0) 0 =
           (min 2 (card (completions (setCell puzzle row col 0))), setCell puzzle row col 0)"
    and "fst (countSolutions (setCell puzzle row col 0) 0) = 1 \<Longrightarrow>
           completions (setCell puzzle row col 0) = {s}"
proof -
  let ?g1 = "setCell puzzle row col 0"
  have f1: "fills ?g1 s" using f b by (rule fills_clear)
  then have c1: "consistent ?g1" using s by (rule fills_solution_consistent)
  then show v: "countSolutions ?g1 0 = (min 2 (card (completions ?g1)), ?g1)"
    by (simp add: countSolutions_value cappedCount_def)
  assume "fst (countSolutions ?g1 0) = 1"
  with v have "card (completions ?g1) = 1" by (simp add: min_def split: if_splits)
  then obtain h where h: "completions ?g1 = {h}" by (rule card_1_singletonE)
  moreover have "s \<in> completions ?g1" using f1 s by (simp add: completions_def completion_def)
  ultimately show "completions ?g1 = {s}" by auto
qed

lemma removeCells_unique:
  assumes s: "isSolution s"
  shows "fills puzzle s \<Longrightarrow> completions puzzle = {s} \<Longrightarrow> set ps \<subseteq> set positions \<Longrightarrow>
     fills (fst (removeCells puzzle ps removed target)) s \<and>
     completions (fst (removeCells puzzle ps removed target)) = {s}"
proof (induction puzzle ps removed target rule: removeCells.induct)
  case (1 puzzle removed cellsToRemove)
  then show ?case by simp
next
  case (2 puzzle row col rest removed cellsToRemove)
  show ?case
  proof (cases "removed \<ge> cellsToRemove")
    case True
    with 2(3,4) show ?thesis by simp
  next
    case more: False
    from 2(5) have b: "row < 9" "col < 9" and rest: "set rest \<subseteq> set positions"
      by (simp_all add: set_positions)
    let ?g1 = "setCell puzzle row col 0"
    note st = removeCells_step [OF s 2(3) b]
    from st(1) obtain n where r: "countSolutions ?g1 0 = (n, ?g1)" by simp
    show ?thesis
    proof (cases "n = 1")
      case True
      have f1: "fills ?g1 s" using 2(3) b by (rule fills_clear)
      from True r have "fst (countSolutions ?g1 0) = 1" by simp
      then have u: "completions ?g1 = {s}" by (rule st(2))
      have step: "removeCells puzzle ((row, col) # rest) removed cellsToRemove =
                  removeCells ?g1 rest (removed + 1) cellsToRemove"
        using more r True by simp
      from 2(1) [OF more refl r [symmetric] True f1 u rest]
      show ?thesis unfolding step .
    next
      case False
      have e: "setCell ?g1 row col (puzzle row col) = puzzle"
        by (simp add: setCell_same)
      have step: "removeCells puzzle ((row, col) # rest) removed cellsToRemove =
                  removeCells puzzle rest removed cellsToRemove"
        using more r False e by simp
      from 2(2) [OF more refl r [symmetric] False] e 2(3,4) rest
      show ?thesis unfolding step by simp
    qed
  qed
qed

lemma removeCells_count:
  "set ps \<subseteq> set positions \<Longrightarrow> distinct ps \<Longrightarrow> (\<forall>(r, c)\<in>set ps. puzzle r c \<noteq> 0) \<Longrightarrow>
   removed \<le> target \<Longrightarrow>
     int (visibleCount (fst (removeCells puzzle ps removed target))) +
       fst (snd (removeCells puzzle ps removed target)) = int (visibleCount puzzle) + removed \<and>
     fst (snd (removeCells puzzle ps removed target)) \<le> target"
proof (induction puzzle ps removed target rule: removeCells.induct)
  case (1 puzzle removed cellsToRemove)
  then show ?case by simp
next
  case (2 puzzle row col rest removed cellsToRemove)
  show ?case
  proof (cases "removed \<ge> cellsToRemove")
    case True
    with 2(6) show ?thesis by simp
  next
    case more: False
    from 2(3) have b: "row < 9" "col < 9" and rest: "set rest \<subseteq> set positions"
      by (simp_all add: set_positions)
    from 2(4) have d: "distinct rest" and notin: "(row, col) \<notin> set rest" by simp_all
    from 2(5) have nz: "puzzle row col \<noteq> 0" and restnz: "\<forall>(r, c)\<in>set rest. puzzle r c \<noteq> 0"
      by simp_all
    let ?g1 = "setCell puzzle row col 0"
    obtain n where r: "countSolutions ?g1 0 = (n, ?g1)"
      using countSolutions_grid(1) [of ?g1 0] by (cases "countSolutions ?g1 0") simp
    show ?thesis
    proof (cases "n = 1")
      case True
      have step: "removeCells puzzle ((row, col) # rest) removed cellsToRemove =
                  removeCells ?g1 rest (removed + 1) cellsToRemove"
        using more r True by simp
      have nz1: "\<forall>(r, c)\<in>set rest. ?g1 r c \<noteq> 0"
        using restnz notin by (auto simp: setCell_apply)
      have le: "removed + 1 \<le> cellsToRemove" using more by simp
      from 2(1) [OF more refl r [symmetric] True rest d nz1 le]
        visibleCount_clear [of row col puzzle, OF b nz]
      show ?thesis unfolding step by simp
    next
      case False
      have e: "setCell ?g1 row col (puzzle row col) = puzzle"
        by (simp add: setCell_same)
      have step: "removeCells puzzle ((row, col) # rest) removed cellsToRemove =
                  removeCells puzzle rest removed cellsToRemove"
        using more r False e by simp
      from 2(2) [OF more refl r [symmetric] False] e rest d restnz 2(6)
      show ?thesis unfolding step by simp
    qed
  qed
qed

text \<open>
  The loop leaves coordinates untried only at \<^verbatim>\<open>break\<close>, that is with the target reached:
  it ends short of the target only after it has tried every coordinate. The untried
  coordinates are the end of the list the loop was given.
\<close>

lemma removeCells_untried:
  "(snd (snd (removeCells puzzle ps removed target)) = [] \<or>
    target \<le> fst (snd (removeCells puzzle ps removed target))) \<and>
   (\<exists>tried. ps = tried @ snd (snd (removeCells puzzle ps removed target)))"
proof (induction puzzle ps removed target rule: removeCells.induct)
  case (1 puzzle removed cellsToRemove)
  show ?case by simp
next
  case (2 puzzle row col rest removed cellsToRemove)
  show ?case
  proof (cases "removed \<ge> cellsToRemove")
    case True
    then show ?thesis by simp
  next
    case more: False
    let ?g1 = "setCell puzzle row col 0"
    obtain n g' where r: "countSolutions ?g1 0 = (n, g')"
      by (cases "countSolutions ?g1 0")
    show ?thesis
    proof (cases "n = 1")
      case True
      have step: "removeCells puzzle ((row, col) # rest) removed cellsToRemove =
                  removeCells g' rest (removed + 1) cellsToRemove"
        using more r True by simp
      from 2(1) [OF more refl r [symmetric] True]
      show ?thesis unfolding step by (metis append_Cons)
    next
      case False
      have step: "removeCells puzzle ((row, col) # rest) removed cellsToRemove =
                  removeCells (setCell g' row col (puzzle row col)) rest removed cellsToRemove"
        using more r False by simp
      from 2(2) [OF more refl r [symmetric] False]
      show ?thesis unfolding step by (metis append_Cons)
    qed
  qed
qed

text \<open>With the target reached the loop does nothing more: no coordinate left is tried.\<close>

lemma removeCells_reached:
  "target \<le> removed \<Longrightarrow> removeCells puzzle ps removed target = (puzzle, removed, ps)"
  by (cases ps) auto

lemma config_range:
  "min_cells (visibleCells (DIFFICULTY_CONFIGS d)) \<le> max_cells (visibleCells (DIFFICULTY_CONFIGS d))"
  "max_cells (visibleCells (DIFFICULTY_CONFIGS d)) \<le> 81"
  by (cases d; simp)+

text \<open>The run of \<^verbatim>\<open>createPuzzle\<close>, spelled out with the values it computes on the way.\<close>

lemma createPuzzleRun_unfold:
  obtains cellsToShow rng1 shuffled rng2 where
    "randomInRange (min_cells (visibleCells (DIFFICULTY_CONFIGS d)))
       (max_cells (visibleCells (DIFFICULTY_CONFIGS d))) rng = (cellsToShow, rng1)"
    "shuffleArray positions rng1 = (shuffled, rng2)"
    "finalPuzzle (createPuzzleRun s d rng) = fst (removeCells s shuffled 0 (81 - cellsToShow))"
    "finalRemoved (createPuzzleRun s d rng) = fst (snd (removeCells s shuffled 0 (81 - cellsToShow)))"
    "removeTarget (createPuzzleRun s d rng) = 81 - cellsToShow"
    "untried (createPuzzleRun s d rng) = snd (snd (removeCells s shuffled 0 (81 - cellsToShow)))"
proof -
  obtain cellsToShow rng1 where a: "randomInRange (min_cells (visibleCells (DIFFICULTY_CONFIGS d)))
       (max_cells (visibleCells (DIFFICULTY_CONFIGS d))) rng = (cellsToShow, rng1)"
    by (cases "randomInRange (min_cells (visibleCells (DIFFICULTY_CONFIGS d)))
       (max_cells (visibleCells (DIFFICULTY_CONFIGS d))) rng")
  obtain shuffled rng2 where b: "shuffleArray positions rng1 = (shuffled, rng2)"
    by (cases "shuffleArray positions rng1")
  from a b have
    "finalPuzzle (createPuzzleRun s d rng) = fst (removeCells s shuffled 0 (81 - cellsToShow))"
    "finalRemoved (createPuzzleRun s d rng) = fst (snd (removeCells s shuffled 0 (81 - cellsToShow)))"
    "removeTarget (createPuzzleRun s d rng) = 81 - cellsToShow"
    "untried (createPuzzleRun s d rng) = snd (snd (removeCells s shuffled 0 (81 - cellsToShow)))"
    by (simp_all add: createPuzzleRun_def Let_def split: prod.splits)
  with a b that show thesis by blast
qed

lemma createPuzzle_unique:
  assumes s: "isSolution s"
  shows "fills (createPuzzle s d rng) s \<and> completions (createPuzzle s d rng) = {s}"
proof -
  obtain cellsToShow rng1 shuffled rng2 where
    sh: "shuffleArray positions rng1 = (shuffled, rng2)" and
    p: "finalPuzzle (createPuzzleRun s d rng) = fst (removeCells s shuffled 0 (81 - cellsToShow))"
    by (rule createPuzzleRun_unfold [of d rng s]) blast
  from sh have "shuffled = fst (shuffleArray positions rng1)" by simp
  then have sub: "set shuffled \<subseteq> set positions" by (simp add: set_shuffleArray)
  from s have "consistent s" "isFull s" by (simp_all add: isSolution_consistent_full)
  then have c: "completions s = {s}" by (rule completions_full)
  from removeCells_unique [OF s fills_refl c sub] show ?thesis
    by (simp add: createPuzzle_def p)
qed

lemma createPuzzle_counts:
  assumes s: "isSolution s"
  shows "int (visibleCount (createPuzzle s d rng)) + finalRemoved (createPuzzleRun s d rng) = 81"
    and "finalRemoved (createPuzzleRun s d rng) \<le> removeTarget (createPuzzleRun s d rng)"
    and "min_cells (visibleCells (DIFFICULTY_CONFIGS d)) \<le> 81 - removeTarget (createPuzzleRun s d rng)"
    and "81 - removeTarget (createPuzzleRun s d rng) \<le> max_cells (visibleCells (DIFFICULTY_CONFIGS d))"
    and "untried (createPuzzleRun s d rng) = [] \<or>
         finalRemoved (createPuzzleRun s d rng) = removeTarget (createPuzzleRun s d rng)"
proof -
  obtain cellsToShow rng1 shuffled rng2 where
    ri: "randomInRange (min_cells (visibleCells (DIFFICULTY_CONFIGS d)))
       (max_cells (visibleCells (DIFFICULTY_CONFIGS d))) rng = (cellsToShow, rng1)" and
    sh: "shuffleArray positions rng1 = (shuffled, rng2)" and
    p: "finalPuzzle (createPuzzleRun s d rng) = fst (removeCells s shuffled 0 (81 - cellsToShow))" and
    r: "finalRemoved (createPuzzleRun s d rng) = fst (snd (removeCells s shuffled 0 (81 - cellsToShow)))" and
    t: "removeTarget (createPuzzleRun s d rng) = 81 - cellsToShow" and
    u: "untried (createPuzzleRun s d rng) = snd (snd (removeCells s shuffled 0 (81 - cellsToShow)))"
    by (rule createPuzzleRun_unfold [of d rng s]) blast
  from sh have e: "shuffled = fst (shuffleArray positions rng1)" by simp
  have sub: "set shuffled \<subseteq> set positions" and dist: "distinct shuffled"
    unfolding e by (simp_all add: set_shuffleArray distinct_shuffleArray distinct_positions)
  from s have full: "isFull s" by (simp add: isSolution_consistent_full)
  then have nz: "\<forall>(r, c)\<in>set shuffled. s r c \<noteq> 0"
    using sub by (auto simp: isFull_iff set_positions)
  from randomInRange_bounds [OF config_range(1), of d rng] ri
  have cs: "min_cells (visibleCells (DIFFICULTY_CONFIGS d)) \<le> cellsToShow"
    "cellsToShow \<le> max_cells (visibleCells (DIFFICULTY_CONFIGS d))" by simp_all
  with config_range(2) [of d] have tpos: "(0::int) \<le> 81 - cellsToShow" by simp
  from removeCells_count [OF sub dist nz tpos] visibleCount_full [OF full]
  show "int (visibleCount (createPuzzle s d rng)) + finalRemoved (createPuzzleRun s d rng) = 81"
    and le: "finalRemoved (createPuzzleRun s d rng) \<le> removeTarget (createPuzzleRun s d rng)"
    by (simp_all add: createPuzzle_def p r t)
  from removeCells_untried [of s shuffled 0 "81 - cellsToShow"] le
  show "untried (createPuzzleRun s d rng) = [] \<or>
        finalRemoved (createPuzzleRun s d rng) = removeTarget (createPuzzleRun s d rng)"
    by (auto simp: r t u)
  from cs show "min_cells (visibleCells (DIFFICULTY_CONFIGS d)) \<le> 81 - removeTarget (createPuzzleRun s d rng)"
    and "81 - removeTarget (createPuzzleRun s d rng) \<le> max_cells (visibleCells (DIFFICULTY_CONFIGS d))"
    by (simp_all add: t)
qed

section \<open>The solver\<close>

text \<open>
  What a successful search guarantees about the cells it filled, whatever the preset
  cells are: every cell that was empty in \<open>g\<close> holds in \<open>h\<close> a digit 1..9 that appears in
  no other cell of its row, column or block.
\<close>

definition placedOk :: "grid \<Rightarrow> grid \<Rightarrow> bool" where
  "placedOk g h =
     list_all (\<lambda>(r, c). g r c = 0 \<longrightarrow> 1 \<le> h r c \<and> h r c \<le> 9 \<and> \<not> appearsElsewhere h r c (h r c)) positions"

lemma placedOk_iff:
  "placedOk g h \<longleftrightarrow>
     (\<forall>r<9. \<forall>c<9. g r c = 0 \<longrightarrow> 1 \<le> h r c \<and> h r c \<le> 9 \<and>
        (\<forall>r'<9. \<forall>c'<9. sameUnit r c r' c' \<and> \<not> (r' = r \<and> c' = c) \<longrightarrow> h r' c' \<noteq> h r c))"
  unfolding placedOk_def list_all_iff set_positions appearsElsewhere_iff
  by auto

lemma placedOk_full: "isFull g \<Longrightarrow> placedOk g g"
  by (simp add: placedOk_iff isFull_iff)

lemma placedOk_step:
  assumes b: "row < 9" "col < 9" and z: "g row col = 0" and n: "1 \<le> num" "num \<le> 9"
    and v: "isValidPlacement g row col num"
    and f1: "fills (setCell g row col num) h" and p1: "placedOk (setCell g row col num) h"
  shows "placedOk g h"
  unfolding placedOk_iff
proof (intro allI impI)
  fix r c assume rc: "r < 9" "c < 9" and e: "g r c = 0"
  let ?g1 = "setCell g row col num"
  from v b have val: "\<And>r c. r < 9 \<Longrightarrow> c < 9 \<Longrightarrow> sameUnit row col r c \<Longrightarrow> g r c \<noteq> num"
    by (simp add: isValidPlacement_iff)
  from p1 have p1': "\<And>r c r' c'. r < 9 \<Longrightarrow> c < 9 \<Longrightarrow> ?g1 r c = 0 \<Longrightarrow> r' < 9 \<Longrightarrow> c' < 9 \<Longrightarrow>
      sameUnit r c r' c' \<Longrightarrow> \<not> (r' = r \<and> c' = c) \<Longrightarrow> h r' c' \<noteq> h r c"
    and p1r: "\<And>r c. r < 9 \<Longrightarrow> c < 9 \<Longrightarrow> ?g1 r c = 0 \<Longrightarrow> 1 \<le> h r c \<and> h r c \<le> 9"
    unfolding placedOk_iff by blast+
  have hn: "h row col = num"
    using fills_nonzero [OF f1, of row col] n by (simp add: setCell_apply)
  show "1 \<le> h r c \<and> h r c \<le> 9 \<and>
        (\<forall>r'<9. \<forall>c'<9. sameUnit r c r' c' \<and> \<not> (r' = r \<and> c' = c) \<longrightarrow> h r' c' \<noteq> h r c)"
  proof (cases "r = row \<and> c = col")
    case True
    have "\<And>r' c'. r' < 9 \<Longrightarrow> c' < 9 \<Longrightarrow> sameUnit row col r' c' \<Longrightarrow> \<not> (r' = row \<and> c' = col) \<Longrightarrow>
            h r' c' \<noteq> num"
    proof -
      fix r' c' assume a: "r' < 9" "c' < 9" "sameUnit row col r' c'" "\<not> (r' = row \<and> c' = col)"
      then have g1: "?g1 r' c' = g r' c'" by (auto simp: setCell_apply)
      show "h r' c' \<noteq> num"
      proof (cases "g r' c' = 0")
        case True
        from a(3) have "sameUnit r' c' row col" by (simp add: sameUnit_sym)
        from p1' [OF a(1,2) _ b this] True g1 a(4) hn show ?thesis by auto
      next
        case False
        with g1 fills_nonzero [OF f1, of r' c'] have "h r' c' = g r' c'" by simp
        with val [OF a(1,2,3)] show ?thesis by simp
      qed
    qed
    with True hn n show ?thesis by blast
  next
    case False
    with e have "?g1 r c = 0" by (auto simp: setCell_apply)
    with p1' [OF rc] p1r [OF rc] show ?thesis by blast
  qed
qed

lemma placedOk_solution:
  assumes c: "consistent g" and f: "fills g h" and full: "isFull h" and p: "placedOk g h"
  shows "isSolution h"
proof -
  have range: "\<forall>r<9. \<forall>c<9. 1 \<le> h r c \<and> h r c \<le> 9"
  proof (intro allI impI)
    fix r c :: nat assume rc: "r < 9" "c < 9"
    show "1 \<le> h r c \<and> h r c \<le> 9"
    proof (cases "g r c = 0")
      case True
      with p rc show ?thesis unfolding placedOk_iff by blast
    next
      case False
      with fills_nonzero [OF f False] c rc show ?thesis unfolding consistent_iff by simp
    qed
  qed
  have differ: "\<forall>r<9. \<forall>c<9. \<forall>r'<9. \<forall>c'<9.
        sameUnit r c r' c' \<and> \<not> (r' = r \<and> c' = c) \<longrightarrow> h r' c' \<noteq> h r c"
  proof (intro allI impI)
    fix r c r' c' :: nat
    assume rc: "r < 9" "c < 9" "r' < 9" "c' < 9" and s: "sameUnit r c r' c' \<and> \<not> (r' = r \<and> c' = c)"
    show "h r' c' \<noteq> h r c"
    proof (cases "g r c = 0")
      case True
      with p rc s show ?thesis unfolding placedOk_iff by blast
    next
      case nz: False
      show ?thesis
      proof (cases "g r' c' = 0")
        case True
        from s have "sameUnit r' c' r c \<and> \<not> (r = r' \<and> c = c')" by (auto simp: sameUnit_sym)
        with p rc True have "h r c \<noteq> h r' c'" unfolding placedOk_iff by blast
        then show ?thesis by simp
      next
        case False
        from c rc nz s have "g r' c' \<noteq> g r c" unfolding consistent_iff by blast
        with fills_nonzero [OF f nz] fills_nonzero [OF f False] show ?thesis by simp
      qed
    qed
  qed
  from range differ show ?thesis unfolding isSolution_iff by simp
qed

lemma solve_grid:
  "\<not> fst (solve g) \<Longrightarrow> snd (solve g) = g"
  "\<not> fst (solveLoop g row col num) \<Longrightarrow>
     snd (solveLoop g row col num) = g \<or> snd (solveLoop g row col num) = setCell g row col 0"
proof (induct g and g row col num rule: solve_solveLoop.induct)
  case (1 grid)
  show ?case
  proof (cases "findEmptyCell grid")
    case None
    with 1 show ?thesis by (simp add: solve.simps)
  next
    case (Some p)
    obtain row col where p: "p = (row, col)" by (cases p)
    from Some p have z: "grid row col = 0" using findEmptyCell_Some by blast
    from Some p have eq: "solve grid = solveLoop grid row col 1"
      by (simp add: solve.simps)
    with 1(2) have "\<not> fst (solveLoop grid row col 1)" by simp
    with 1(1) [OF Some p [symmetric]] z eq show ?thesis by (simp add: setCell_same)
  qed
next
  case (2 grid row col num)
  note eq = solveLoop.simps [of grid row col num]
  show ?case
  proof (cases "num \<le> 9")
    case False
    then show ?thesis by (simp add: eq)
  next
    case le: True
    show ?thesis
    proof (cases "isValidPlacement grid row col num")
      case False
      with le 2(3,4) show ?thesis by (simp add: eq)
    next
      case v: True
      obtain ok g' where r: "solve (setCell grid row col num) = (ok, g')"
        by (cases "solve (setCell grid row col num)")
      show ?thesis
      proof (cases ok)
        case True
        with le v r 2(4) show ?thesis by (simp add: eq)
      next
        case False
        with 2(1) le v r have g_eq: "g' = setCell grid row col num" by simp
        from le v r False have e2: "solveLoop grid row col num =
           solveLoop (setCell grid row col 0) row col (num + 1)"
          by (simp add: eq g_eq)
        from 2(2) [OF le v r [symmetric]] False 2(4) e2 g_eq
        show ?thesis by simp
      qed
    qed
  qed
qed

lemma solve_sound:
  "fst (solve g) \<Longrightarrow>
     fills g (snd (solve g)) \<and> isFull (snd (solve g)) \<and> placedOk g (snd (solve g))"
  "row < 9 \<Longrightarrow> col < 9 \<Longrightarrow> g row col = 0 \<Longrightarrow> 1 \<le> num \<Longrightarrow> fst (solveLoop g row col num) \<Longrightarrow>
     fills g (snd (solveLoop g row col num)) \<and> isFull (snd (solveLoop g row col num)) \<and>
     placedOk g (snd (solveLoop g row col num))"
proof (induct g and g row col num rule: solve_solveLoop.induct)
  case (1 grid)
  show ?case
  proof (cases "findEmptyCell grid")
    case None
    then have "isFull grid" by (simp add: isFull_findEmptyCell)
    with None show ?thesis by (simp add: solve.simps fills_refl placedOk_full)
  next
    case (Some p)
    obtain row col where p: "p = (row, col)" by (cases p)
    from Some p have z: "row < 9" "col < 9" "grid row col = 0"
      using findEmptyCell_Some by blast+
    from Some p have eq: "solve grid = solveLoop grid row col 1"
      by (simp add: solve.simps)
    with 1(2) have "fst (solveLoop grid row col 1)" by simp
    from 1(1) [OF Some p [symmetric] z _ this] show ?thesis unfolding eq by simp
  qed
next
  case (2 grid row col num)
  note eq = solveLoop.simps [of grid row col num]
  note b = 2(4,5,6)
  show ?case
  proof (cases "num \<le> 9")
    case False
    with 2(8) show ?thesis by (simp add: eq)
  next
    case le: True
    show ?thesis
    proof (cases "isValidPlacement grid row col num")
      case False
      with le 2(8) have "fst (solveLoop grid row col (num + 1))" by (simp add: eq)
      from 2(3) [OF le False b _ this] 2(7) le False show ?thesis by (simp add: eq)
    next
      case v: True
      let ?g1 = "setCell grid row col num"
      obtain ok g' where r: "solve ?g1 = (ok, g')" by (cases "solve ?g1")
      show ?thesis
      proof (cases ok)
        case True
        with 2(1) [OF le v] r have f1: "fills ?g1 g'" and full: "isFull g'" and p1: "placedOk ?g1 g'"
          by simp_all
        have "fills grid ?g1" using b by (rule fills_setCell)
        then have "fills grid g'" using f1 by (rule fills_trans)
        moreover have "placedOk grid g'"
          using b 2(7) le v f1 p1 by (rule placedOk_step)
        moreover from le v r True have "solveLoop grid row col num = (True, g')"
          by (simp add: eq)
        ultimately show ?thesis using full by simp
      next
        case False
        with solve_grid(1) [of ?g1] r have g_eq: "g' = ?g1" by simp
        have restored: "setCell g' row col 0 = grid"
          unfolding g_eq using b(3) by (simp add: setCell_same)
        from le v r False restored have e2: "solveLoop grid row col num = solveLoop grid row col (num + 1)"
          by (simp add: eq)
        with 2(8) have "fst (solveLoop grid row col (num + 1))" by simp
        moreover from False have okF: "ok = False" by simp
        note 2(2) [OF le v r [symmetric] okF]
        ultimately show ?thesis unfolding e2 using restored b 2(7) by simp
      qed
    qed
  qed
qed

lemma solve_complete:
  "consistent g \<Longrightarrow> \<not> fst (solve g) \<Longrightarrow> completions g = {}"
  "consistent g \<Longrightarrow> row < 9 \<Longrightarrow> col < 9 \<Longrightarrow> g row col = 0 \<Longrightarrow> 1 \<le> num \<Longrightarrow>
     \<not> fst (solveLoop g row col num) \<Longrightarrow>
     (\<Union>d\<in>{num..9}. completions (setCell g row col d)) = {}"
proof (induct g and g row col num rule: solve_solveLoop.induct)
  case (1 grid)
  show ?case
  proof (cases "findEmptyCell grid")
    case None
    with 1(3) show ?thesis by (simp add: solve.simps)
  next
    case (Some p)
    obtain row col where p: "p = (row, col)" by (cases p)
    from Some p have z: "row < 9" "col < 9" "grid row col = 0"
      using findEmptyCell_Some by blast+
    from Some p have eq: "solve grid = solveLoop grid row col 1"
      by (simp add: solve.simps)
    with 1(3) have nf: "\<not> fst (solveLoop grid row col 1)" by simp
    have sp: "completions grid = (\<Union>d\<in>{1..9}. completions (setCell grid row col d))"
      using z by (rule completions_split)
    from 1(1) [OF Some p [symmetric] 1(2) z _ nf] show ?thesis unfolding sp by simp
  qed
next
  case (2 grid row col num)
  note eq = solveLoop.simps [of grid row col num]
  note b = 2(5,6,7)
  let ?A = "completions (setCell grid row col num)"
  let ?B = "\<Union>d\<in>{num + 1..9}. completions (setCell grid row col d)"
  show ?case
  proof (cases "num \<le> 9")
    case False
    then show ?thesis by simp
  next
    case le: True
    have un: "(\<Union>d\<in>{num..9}. completions (setCell grid row col d)) = ?A \<union> ?B"
      by (simp add: digits_from [OF le])
    show ?thesis
    proof (cases "isValidPlacement grid row col num")
      case False
      have nz: "num \<noteq> 0" using 2(8) by simp
      have "\<And>h. \<not> completion (setCell grid row col num) h"
        using b(1) b(2) b(3) nz False by (rule invalid_no_completion)
      then have "?A = {}" by (auto simp: completions_def)
      moreover from le False 2(9) have "\<not> fst (solveLoop grid row col (num + 1))"
        by (simp add: eq)
      from 2(3) [OF le False 2(4) b _ this] 2(8) have "?B = {}" by simp
      ultimately show ?thesis unfolding un by simp
    next
      case v: True
      let ?g1 = "setCell grid row col num"
      have c1: "consistent ?g1"
        using 2(4) b 2(8) le v by (rule consistent_setCell)
      obtain ok g' where r: "solve ?g1 = (ok, g')" by (cases "solve ?g1")
      from le v r 2(9) have nok: "\<not> ok" by (auto simp: eq)
      with 2(1) [OF le v c1] r have "?A = {}" by simp
      from nok solve_grid(1) [of ?g1] r have g_eq: "g' = ?g1" by simp
      have restored: "setCell g' row col 0 = grid"
        unfolding g_eq using b(3) by (simp add: setCell_same)
      from le v r nok restored have e2: "solveLoop grid row col num = solveLoop grid row col (num + 1)"
        by (simp add: eq)
      with 2(9) have "\<not> fst (solveLoop grid row col (num + 1))" by simp
      moreover from nok have okF: "ok = False" by simp
      note 2(2) [OF le v r [symmetric] okF]
      ultimately have "?B = {}" using restored 2(4) b 2(8) by simp
      with \<open>?A = {}\<close> show ?thesis unfolding un by simp
    qed
  qed
qed

lemma unit_has_digit:
  assumes u: "u \<in> set units" and e: "\<forall>(r, c)\<in>set u. g r c = 0" and p: "placedOk g h"
    and d: "1 \<le> d" "d \<le> 9"
  shows "\<exists>(r, c)\<in>set u. h r c = d"
proof -
  let ?f = "\<lambda>(r, c). h r c"
  have inj: "inj_on ?f (set u)"
  proof (rule inj_onI)
    fix x y assume xy: "x \<in> set u" "y \<in> set u" and eq: "?f x = ?f y"
    obtain r c r' c' where x: "x = (r, c)" and y: "y = (r', c')" by (cases x, cases y)
    from u xy x y have b: "r < 9" "c < 9" "r' < 9" "c' < 9" and su: "sameUnit r c r' c'"
      using unit_on_board unit_sameUnit by blast+
    from e xy(1) x have "g r c = 0" by auto
    with p b su have "\<not> (r' = r \<and> c' = c) \<longrightarrow> h r' c' \<noteq> h r c"
      unfolding placedOk_iff by blast
    with eq x y show "x = y" by auto
  qed
  have "distinct (unitValues h u)"
    unfolding unitValues_def using unit_distinct [OF u] inj by (simp add: distinct_map)
  then have "card (set (unitValues h u)) = length (unitValues h u)"
    by (rule distinct_card)
  moreover have "length (unitValues h u) = 9"
    using unit_length [OF u] by (simp add: unitValues_def)
  ultimately have "card (set (unitValues h u)) = 9" by simp
  moreover have sub: "set (unitValues h u) \<subseteq> {1..9}"
  proof
    fix v assume "v \<in> set (unitValues h u)"
    then obtain r c where rc: "(r, c) \<in> set u" "v = h r c" by (auto simp: unitValues_def)
    with e have "g r c = 0" by auto
    moreover from u rc(1) have "r < 9 \<and> c < 9" by (rule unit_on_board)
    ultimately show "v \<in> {1..9}" using p rc(2) unfolding placedOk_iff by simp
  qed
  moreover have "card {1..9::int} = 9" by simp
  ultimately have "set (unitValues h u) = {1..9}"
    by (metis card_subset_eq finite_atLeastAtMost_int)
  with d have "d \<in> set (unitValues h u)" by simp
  then show ?thesis by (auto simp: unitValues_def)
qed

lemma placedOk_differ:
  assumes "placedOk g h" "r < 9" "c < 9" "g r c = 0" "r' < 9" "c' < 9"
    "sameUnit r c r' c'" "\<not> (r' = r \<and> c' = c)"
  shows "h r' c' \<noteq> h r c"
  using assms unfolding placedOk_iff by blast

text \<open>The grid of the row-conflict case: 5 at \<open>(0, 0)\<close> and at \<open>(0, 1)\<close>, every other cell empty.\<close>

definition conflictGrid :: grid where
  "conflictGrid = setCell (setCell emptyGrid 0 0 5) 0 1 5"

lemma conflictGrid_cells:
  "conflictGrid 0 0 = 5" "conflictGrid 0 1 = 5"
  "r \<noteq> 0 \<Longrightarrow> conflictGrid r c = 0"
  by (simp_all add: conflictGrid_def setCell_apply emptyGrid_def)

text \<open>
  No grid fills the empty cells of the row-conflict grid in the way a successful search
  would: the blocks below the two 5s each need a 5, neither can take it in column 0 or 1,
  and column 2 cannot hold both.
\<close>

lemma conflictGrid_no_fill:
  assumes f: "fills conflictGrid h" and p: "placedOk conflictGrid h"
  shows False
proof -
  have h00: "h 0 0 = 5"
    using fills_nonzero [OF f, of 0 0] by (simp add: conflictGrid_cells)
  have "conflictGrid 0 1 \<noteq> 0" by (simp only: conflictGrid_cells)
  from fills_nonzero [OF f this] have h01: "h 0 1 = 5"
    by (simp only: conflictGrid_cells)
  have low: "\<And>b r c. b \<in> {3, 6} \<Longrightarrow> (r, c) \<in> set (blockCells b) \<Longrightarrow> r \<noteq> 0 \<and> r < 9 \<and> c < 3"
  proof -
    fix b r c :: nat
    assume "b \<in> {3, 6}" "(r, c) \<in> set (blockCells b)"
    then have "r div 3 = b div 3" "c div 3 = b mod 3" "b div 3 \<in> {1, 2}" "b mod 3 = 0"
      by (auto simp: set_blockCells)
    then show "r \<noteq> 0 \<and> r < 9 \<and> c < 3" by (auto simp: div3_less [symmetric])
  qed
  have five: "\<And>b. b \<in> {3, 6} \<Longrightarrow> \<exists>r. r div 3 = b div 3 \<and> r < 9 \<and> h r 2 = 5"
  proof -
    fix b :: nat assume b: "b \<in> {3, 6}"
    then have "b < 9" by auto
    then have u: "blockCells b \<in> set units" unfolding units_cases by blast
    have e: "\<forall>(r, c)\<in>set (blockCells b). conflictGrid r c = 0"
      using low [OF b] by (auto simp: conflictGrid_cells)
    from unit_has_digit [OF u e p, of 5] obtain r c where
      rc: "(r, c) \<in> set (blockCells b)" "h r c = 5" by auto
    from low [OF b rc(1)] have r: "r \<noteq> 0" "r < 9" "c < 3" by simp_all
    have z: "conflictGrid r c = 0" using r(1) by (simp add: conflictGrid_cells)
    have c9: "c < 9" using r(3) by simp
    note pk = placedOk_differ [OF p r(2) c9 z]
    have "c \<noteq> 0"
    proof
      assume "c = 0"
      with pk [of 0 0] r(1) rc(2) h00 show False by (simp add: sameUnit_def)
    qed
    moreover have "c \<noteq> 1"
    proof
      assume "c = 1"
      with pk [of 0 1] r(1) rc(2) h01 show False by (simp add: sameUnit_def)
    qed
    ultimately have "c = 2" using r(3) by simp
    moreover from rc(1) have "r div 3 = b div 3" by (simp add: set_blockCells)
    ultimately show "\<exists>r. r div 3 = b div 3 \<and> r < 9 \<and> h r 2 = 5" using rc(2) r(2) by blast
  qed
  from five [of 3] obtain r1 where r1: "r1 div 3 = 1" "r1 < 9" "h r1 2 = 5" by auto
  from five [of 6] obtain r2 where r2: "r2 div 3 = 2" "r2 < 9" "h r2 2 = 5" by auto
  from r1(1) have "r1 \<noteq> 0" by auto
  then have "conflictGrid r1 2 = 0" by (simp add: conflictGrid_cells)
  moreover have "sameUnit r1 2 r2 2" by (simp add: sameUnit_def)
  moreover from r1(1) r2(1) have "\<not> (r2 = r1 \<and> (2::nat) = 2)" by auto
  ultimately have "h r2 2 \<noteq> h r1 2"
    using placedOk_differ [OF p r1(2) _ _ r2(2), of 2 2] by simp
  with r1(3) r2(3) show False by simp
qed

section \<open>The randomized filler\<close>

lemma fillGrid_grid:
  "\<not> fst (fillGrid g rng) \<Longrightarrow> fst (snd (fillGrid g rng)) = g"
  "\<not> fst (fillLoop g row col nums rng) \<Longrightarrow>
     fst (snd (fillLoop g row col nums rng)) = g \<or>
     fst (snd (fillLoop g row col nums rng)) = setCell g row col 0"
proof (induct g rng and g row col nums rng rule: fillGrid_fillLoop.induct)
  case (1 grid rng)
  show ?case
  proof (cases "findEmptyCell grid")
    case None
    with 1 show ?thesis by (simp add: fillGrid.simps)
  next
    case (Some p)
    obtain row col where p: "p = (row, col)" by (cases p)
    obtain numbers rng' where sh: "shuffleArray [1::int, 2, 3, 4, 5, 6, 7, 8, 9] rng = (numbers, rng')"
      by (cases "shuffleArray [1::int, 2, 3, 4, 5, 6, 7, 8, 9] rng")
    from Some p have z: "grid row col = 0" using findEmptyCell_Some by blast
    from Some p sh have eq: "fillGrid grid rng = fillLoop grid row col numbers rng'"
      by (simp add: fillGrid.simps)
    from 1(1) [OF Some p [symmetric] sh [symmetric]] 1(2) z eq
    show ?thesis by (simp add: setCell_same)
  qed
next
  case (2 grid row col rng)
  then show ?case by (simp add: fillLoop.simps)
next
  case (3 grid row col num nums rng)
  note eq = fillLoop.simps(2) [of grid row col num nums rng]
  show ?case
  proof (cases "isValidPlacement grid row col num")
    case False
    with 3(3,4) show ?thesis by (simp add: eq)
  next
    case v: True
    obtain ok g' rng' where r: "fillGrid (setCell grid row col num) rng = (ok, g', rng')"
      by (cases "fillGrid (setCell grid row col num) rng")
    show ?thesis
    proof (cases ok)
      case True
      with v r 3(4) show ?thesis by (simp add: eq)
    next
      case False
      with 3(1) v r have g_eq: "g' = setCell grid row col num" by simp
      from v r False have e2: "fillLoop grid row col (num # nums) rng =
           fillLoop (setCell grid row col 0) row col nums rng'"
        by (simp add: eq g_eq)
      from 3(2) [OF v r [symmetric] _ refl] False 3(4) e2 g_eq
      show ?thesis by simp
    qed
  qed
qed

lemma digits_list: "set [1, 2, 3, 4, 5, 6, 7, 8, 9] = {1..9::int}"
  by auto

lemma fillGrid_sound:
  "fst (fillGrid g rng) \<Longrightarrow>
     fills g (fst (snd (fillGrid g rng))) \<and> isFull (fst (snd (fillGrid g rng))) \<and>
     placedOk g (fst (snd (fillGrid g rng)))"
  "row < 9 \<Longrightarrow> col < 9 \<Longrightarrow> g row col = 0 \<Longrightarrow> set nums \<subseteq> {1..9} \<Longrightarrow>
   fst (fillLoop g row col nums rng) \<Longrightarrow>
     fills g (fst (snd (fillLoop g row col nums rng))) \<and>
     isFull (fst (snd (fillLoop g row col nums rng))) \<and>
     placedOk g (fst (snd (fillLoop g row col nums rng)))"
proof (induct g rng and g row col nums rng rule: fillGrid_fillLoop.induct)
  case (1 grid rng)
  show ?case
  proof (cases "findEmptyCell grid")
    case None
    then have "isFull grid" by (simp add: isFull_findEmptyCell)
    with None show ?thesis by (simp add: fillGrid.simps fills_refl placedOk_full)
  next
    case (Some p)
    obtain row col where p: "p = (row, col)" by (cases p)
    obtain numbers rng' where sh: "shuffleArray [1::int, 2, 3, 4, 5, 6, 7, 8, 9] rng = (numbers, rng')"
      by (cases "shuffleArray [1::int, 2, 3, 4, 5, 6, 7, 8, 9] rng")
    from sh have "numbers = fst (shuffleArray [1::int, 2, 3, 4, 5, 6, 7, 8, 9] rng)" by simp
    then have "set numbers = {1..9}"
      by (simp only: set_shuffleArray digits_list)
    then have ns: "set numbers \<subseteq> {1..9}" by simp
    from Some p have z: "row < 9" "col < 9" "grid row col = 0"
      using findEmptyCell_Some by blast+
    from Some p sh have eq: "fillGrid grid rng = fillLoop grid row col numbers rng'"
      by (simp add: fillGrid.simps)
    with 1(2) have "fst (fillLoop grid row col numbers rng')" by simp
    from 1(1) [OF Some p [symmetric] sh [symmetric] z ns this] show ?thesis unfolding eq .
  qed
next
  case (2 grid row col rng)
  then show ?case by (simp add: fillLoop.simps)
next
  case (3 grid row col num nums rng)
  note eq = fillLoop.simps(2) [of grid row col num nums rng]
  note b = 3(4,5,6)
  from 3(7) have n: "1 \<le> num" "num \<le> 9" and ns: "set nums \<subseteq> {1..9}" by simp_all
  show ?case
  proof (cases "isValidPlacement grid row col num")
    case False
    with 3(8) have "fst (fillLoop grid row col nums rng)" by (simp add: eq)
    from 3(3) [OF False b ns this] False show ?thesis by (simp add: eq)
  next
    case v: True
    let ?g1 = "setCell grid row col num"
    obtain ok g' rng' where r: "fillGrid ?g1 rng = (ok, g', rng')" by (cases "fillGrid ?g1 rng")
    show ?thesis
    proof (cases ok)
      case True
      with 3(1) [OF v] r have f1: "fills ?g1 g'" and full: "isFull g'" and p1: "placedOk ?g1 g'"
        by simp_all
      have "fills grid ?g1" using b by (rule fills_setCell)
      then have "fills grid g'" using f1 by (rule fills_trans)
      moreover have "placedOk grid g'"
        using b n v f1 p1 by (rule placedOk_step)
      moreover from v r True have "fillLoop grid row col (num # nums) rng = (True, g', rng')"
        by (simp add: eq)
      ultimately show ?thesis using full by simp
    next
      case False
      with fillGrid_grid(1) [of ?g1 rng] r have g_eq: "g' = ?g1" by simp
      have restored: "setCell g' row col 0 = grid"
        unfolding g_eq using b(3) by (simp add: setCell_same)
      from v r False restored have e2: "fillLoop grid row col (num # nums) rng = fillLoop grid row col nums rng'"
        by (simp add: eq)
      with 3(8) have "fst (fillLoop grid row col nums rng')" by simp
      moreover from False have okF: "ok = False" by simp
      note 3(2) [OF v r [symmetric] okF refl]
      ultimately show ?thesis unfolding e2 using restored b ns by simp
    qed
  qed
qed

lemma fillGrid_complete:
  "consistent g \<Longrightarrow> \<not> fst (fillGrid g rng) \<Longrightarrow> completions g = {}"
  "consistent g \<Longrightarrow> row < 9 \<Longrightarrow> col < 9 \<Longrightarrow> g row col = 0 \<Longrightarrow> set nums \<subseteq> {1..9} \<Longrightarrow>
     \<not> fst (fillLoop g row col nums rng) \<Longrightarrow>
     (\<Union>d\<in>set nums. completions (setCell g row col d)) = {}"
proof (induct g rng and g row col nums rng rule: fillGrid_fillLoop.induct)
  case (1 grid rng)
  show ?case
  proof (cases "findEmptyCell grid")
    case None
    with 1(3) show ?thesis by (simp add: fillGrid.simps)
  next
    case (Some p)
    obtain row col where p: "p = (row, col)" by (cases p)
    obtain numbers rng' where sh: "shuffleArray [1::int, 2, 3, 4, 5, 6, 7, 8, 9] rng = (numbers, rng')"
      by (cases "shuffleArray [1::int, 2, 3, 4, 5, 6, 7, 8, 9] rng")
    from sh have "numbers = fst (shuffleArray [1::int, 2, 3, 4, 5, 6, 7, 8, 9] rng)" by simp
    then have ns: "set numbers = {1..9}"
      by (simp only: set_shuffleArray digits_list)
    from Some p have z: "row < 9" "col < 9" "grid row col = 0"
      using findEmptyCell_Some by blast+
    from Some p sh have eq: "fillGrid grid rng = fillLoop grid row col numbers rng'"
      by (simp add: fillGrid.simps)
    with 1(3) have nf: "\<not> fst (fillLoop grid row col numbers rng')" by simp
    have sp: "completions grid = (\<Union>d\<in>{1..9}. completions (setCell grid row col d))"
      using z by (rule completions_split)
    from 1(1) [OF Some p [symmetric] sh [symmetric] 1(2) z _ nf] ns
    show ?thesis unfolding sp by simp
  qed
next
  case (2 grid row col rng)
  then show ?case by simp
next
  case (3 grid row col num nums rng)
  note eq = fillLoop.simps(2) [of grid row col num nums rng]
  note b = 3(5,6,7)
  from 3(8) have n: "1 \<le> num" "num \<le> 9" and ns: "set nums \<subseteq> {1..9}" by simp_all
  let ?A = "completions (setCell grid row col num)"
  let ?B = "\<Union>d\<in>set nums. completions (setCell grid row col d)"
  have un: "(\<Union>d\<in>set (num # nums). completions (setCell grid row col d)) = ?A \<union> ?B"
    by simp
  show ?case
  proof (cases "isValidPlacement grid row col num")
    case False
    have nz: "num \<noteq> 0" using n by simp
    have "\<And>h. \<not> completion (setCell grid row col num) h"
      using b(1) b(2) b(3) nz False by (rule invalid_no_completion)
    then have "?A = {}" by (auto simp: completions_def)
    moreover from False 3(9) have "\<not> fst (fillLoop grid row col nums rng)"
      by (simp add: eq)
    from 3(3) [OF False 3(4) b ns this] have "?B = {}" .
    ultimately show ?thesis unfolding un by simp
  next
    case v: True
    let ?g1 = "setCell grid row col num"
    have c1: "consistent ?g1"
      using 3(4) b n v by (rule consistent_setCell)
    obtain ok g' rng' where r: "fillGrid ?g1 rng = (ok, g', rng')" by (cases "fillGrid ?g1 rng")
    from v r 3(9) have nok: "\<not> ok" by (auto simp: eq)
    with 3(1) [OF v c1] r have "?A = {}" by simp
    from nok fillGrid_grid(1) [of ?g1 rng] r have g_eq: "g' = ?g1" by simp
    have restored: "setCell g' row col 0 = grid"
      unfolding g_eq using b(3) by (simp add: setCell_same)
    from v r nok restored have e2: "fillLoop grid row col (num # nums) rng = fillLoop grid row col nums rng'"
      by (simp add: eq)
    with 3(9) have "\<not> fst (fillLoop grid row col nums rng')" by simp
    moreover from nok have okF: "ok = False" by simp
    note 3(2) [OF v r [symmetric] okF refl]
    ultimately have "?B = {}" using restored 3(4) b ns by simp
    with \<open>?A = {}\<close> show ?thesis unfolding un by simp
  qed
qed

section \<open>A concrete solution and a concrete random source\<close>

definition exampleSolution :: grid where
  "exampleSolution = gridOfRows
     [[1, 2, 3, 4, 5, 6, 7, 8, 9],
      [4, 5, 6, 7, 8, 9, 1, 2, 3],
      [7, 8, 9, 1, 2, 3, 4, 5, 6],
      [2, 3, 4, 5, 6, 7, 8, 9, 1],
      [5, 6, 7, 8, 9, 1, 2, 3, 4],
      [8, 9, 1, 2, 3, 4, 5, 6, 7],
      [3, 4, 5, 6, 7, 8, 9, 1, 2],
      [6, 7, 8, 9, 1, 2, 3, 4, 5],
      [9, 1, 2, 3, 4, 5, 6, 7, 8]]"

lemma isSolution_exampleSolution: "isSolution exampleSolution"
  by code_simp

text \<open>The random source whose every draw is 0.\<close>

lift_definition zeroDraw :: unitReal is "0::real"
  by simp

definition zeroDraws :: rng where
  "zeroDraws = (\<lambda>n. zeroDraw)"

lemma distinct_count_list: "distinct xs \<Longrightarrow> x \<in> set xs \<Longrightarrow> count_list xs x = 1"
  by (induction xs) auto

lemma nine_distinct_digits:
  assumes "distinct vs" "set vs \<subseteq> {1..9::int}" "length vs = 9"
  shows "set vs = {1..9}"
proof -
  from assms(1) have "card (set vs) = length vs" by (rule distinct_card)
  with assms(3) have "card (set vs) = card {1..9::int}" by simp
  with assms(2) show ?thesis by (metis card_subset_eq finite_atLeastAtMost_int)
qed

lemma isSolution_eachDigitOnce:
  assumes "isSolution g"
  shows "eachDigitOnce g"
  unfolding eachDigitOnce_def list_all_iff
proof (intro ballI)
  fix u d assume u: "u \<in> set units" and d: "d \<in> set [1, 2, 3, 4, 5, 6, 7, 8, 9::int]"
  from assms u have dist: "distinct (unitValues g u)"
    and rng: "set (unitValues g u) \<subseteq> {1..9}"
    by (auto simp: isSolution_def list_all_iff)
  have "length (unitValues g u) = 9" using unit_length [OF u] by (simp add: unitValues_def)
  with dist rng have "set (unitValues g u) = {1..9}" by (rule nine_distinct_digits)
  with d have "d \<in> set (unitValues g u)" by (simp only: digits_list)
  with dist show "count_list (unitValues g u) d = 1" by (rule distinct_count_list)
qed

lemma consistent_emptyGrid: "consistent emptyGrid"
  by (simp add: consistent_iff emptyGrid_def)

lemma exampleSolution_completes_emptyGrid: "exampleSolution \<in> completions emptyGrid"
proof -
  have "fills emptyGrid exampleSolution"
    by (simp add: fills_def emptyGrid_def exampleSolution_def gridOfRows_def)
  with isSolution_exampleSolution show ?thesis
    by (simp add: completions_def completion_def)
qed

section \<open>Grids as objects: the copies made by the entry points\<close>

text \<open>
  A \<^verbatim>\<open>number[][]\<close> is an array of references to row arrays. The store maps the address
  of a row array to its content; a grid reference gives the addresses of its nine rows;
  addresses from \<open>fresh\<close> on are not allocated yet. The functions below are the entry
  points and the searches they call, run on the store: every read and every write of a
  cell goes through a reference.
\<close>

type_synonym addr = nat

record store =
  rowsOf :: "addr \<Rightarrow> nat \<Rightarrow> int"
  fresh :: addr

type_synonym gridRef = "nat \<Rightarrow> addr"

text \<open>
  The content of the grid behind a reference: \<^verbatim>\<open>grid[row][col]\<close> for the 81 cells of
  the board.
\<close>

definition readGrid :: "store \<Rightarrow> gridRef \<Rightarrow> grid" where
  "readGrid st ref =
     (\<lambda>row col. if row < GRID_SIZE \<and> col < GRID_SIZE then rowsOf st (ref row) col else 0)"

text \<open>The assignment \<^verbatim>\<open>grid[row][col] = v\<close> through a reference.\<close>

definition writeCell :: "store \<Rightarrow> gridRef \<Rightarrow> nat \<Rightarrow> nat \<Rightarrow> int \<Rightarrow> store" where
  "writeCell st ref row col v =
     st\<lparr>rowsOf := (rowsOf st)(ref row := (rowsOf st (ref row))(col := v))\<rparr>"

text \<open>
  \<^verbatim>\<open>grid.map((row) => [...row])\<close>: nine new row arrays, each with the content of the
  row it copies, and a new outer array that refers to them.
\<close>

definition copyGrid :: "store \<Rightarrow> gridRef \<Rightarrow> store \<times> gridRef" where
  "copyGrid st ref =
     (let base = fresh st
      in (st\<lparr>rowsOf := (\<lambda>a. if base \<le> a \<and> a < base + GRID_SIZE
                              then rowsOf st (ref (a - base)) else rowsOf st a),
             fresh := base + GRID_SIZE\<rparr>,
          \<lambda>row. base + row))"

lemma writeCell_same: "rowsOf st (ref row) col = v \<Longrightarrow> writeCell st ref row col v = st"
  by (auto simp: writeCell_def)

lemma writeCell_writeCell [simp]:
  "writeCell (writeCell st ref row col v) ref row col w = writeCell st ref row col w"
  by (simp add: writeCell_def)

lemma readGrid_writeCell:
  "readGrid (writeCell st ref row col v) ref r c =
     (if r < 9 \<and> c < 9 \<and> ref r = ref row \<and> c = col then v else readGrid st ref r c)"
  by (simp add: readGrid_def writeCell_def)

lemma emptyCount_writeCell_less:
  assumes "row < 9" "col < 9" "v \<noteq> 0"
  shows "emptyCount (readGrid (writeCell st ref row col v) ref)
         < emptyCount (readGrid (writeCell st ref row col 0) ref)"
proof -
  let ?A = "{(r, c). r < 9 \<and> c < 9 \<and> readGrid (writeCell st ref row col v) ref r c = 0}"
  let ?B = "{(r, c). r < 9 \<and> c < 9 \<and> readGrid (writeCell st ref row col 0) ref r c = 0}"
  have "?B \<subseteq> {..<9} \<times> {..<9}" by auto
  then have fin: "finite ?B" by (rule finite_subset) simp
  have "?A \<subseteq> ?B" using assms(3) by (auto simp: readGrid_writeCell split: if_splits)
  moreover have "(row, col) \<in> ?B" "(row, col) \<notin> ?A" using assms by (auto simp: readGrid_writeCell)
  ultimately have "?A \<subset> ?B" by blast
  with fin show ?thesis unfolding emptyCount_def by (rule psubset_card_mono)
qed

lemma emptyCount_writeCell_zero [simp]:
  "emptyCount (readGrid (writeCell (writeCell st ref row col v) ref row col 0) ref) =
   emptyCount (readGrid (writeCell st ref row col 0) ref)"
  by simp

lemma findEmptyCell_readGrid:
  assumes "findEmptyCell (readGrid st ref) = Some (row, col)"
  shows "row < 9" "col < 9" "rowsOf st (ref row) col = 0"
  using findEmptyCell_Some [OF assms] by (auto simp: readGrid_def split: if_splits)

function solveStore :: "store \<Rightarrow> gridRef \<Rightarrow> bool \<times> store"
  and solveLoopStore :: "store \<Rightarrow> gridRef \<Rightarrow> nat \<Rightarrow> nat \<Rightarrow> int \<Rightarrow> bool \<times> store" where
  "solveStore st grid =
     (case findEmptyCell (readGrid st grid) of
        None \<Rightarrow> (True, st)
      | Some (row, col) \<Rightarrow> solveLoopStore st grid row col 1)"
| "solveLoopStore st grid row col num =
     (if num \<le> 9 then
        (if isValidPlacement (readGrid st grid) row col num then
           (case solveStore (writeCell st grid row col num) grid of
              (True, st') \<Rightarrow> (True, st')
            | (False, st') \<Rightarrow> solveLoopStore (writeCell st' grid row col 0) grid row col (num + 1))
         else solveLoopStore st grid row col (num + 1))
      else (False, st))"
  by pat_completeness auto

lemma solveStore_restores_dom:
  "solveStore_solveLoopStore_dom (Inl (st, ref)) \<Longrightarrow> \<not> fst (solveStore st ref) \<Longrightarrow>
     snd (solveStore st ref) = st"
  "solveStore_solveLoopStore_dom (Inr (st, ref, row, col, num)) \<Longrightarrow>
   \<not> fst (solveLoopStore st ref row col num) \<Longrightarrow>
     snd (solveLoopStore st ref row col num) = st \<or>
     snd (solveLoopStore st ref row col num) = writeCell st ref row col 0"
proof (induct rule: solveStore_solveLoopStore.pinduct)
  case (1 st grid)
  show ?case
  proof (cases "findEmptyCell (readGrid st grid)")
    case None
    with 1 show ?thesis by (simp add: solveStore.psimps)
  next
    case (Some p)
    obtain row col where p: "p = (row, col)" by (cases p)
    from Some p have z: "rowsOf st (grid row) col = 0" using findEmptyCell_readGrid by blast
    from 1(1) Some p have eq: "solveStore st grid = solveLoopStore st grid row col 1"
      by (simp add: solveStore.psimps)
    with 1(3) have "\<not> fst (solveLoopStore st grid row col 1)" by simp
    with 1(2) [OF Some p [symmetric]] z eq show ?thesis by (simp add: writeCell_same)
  qed
next
  case (2 st grid row col num)
  note eq = solveLoopStore.psimps [OF 2(1)]
  show ?case
  proof (cases "num \<le> 9")
    case False
    then show ?thesis by (simp add: eq)
  next
    case le: True
    show ?thesis
    proof (cases "isValidPlacement (readGrid st grid) row col num")
      case False
      with le 2(4,5) show ?thesis by (simp add: eq)
    next
      case v: True
      obtain ok st' where r: "solveStore (writeCell st grid row col num) grid = (ok, st')"
        by (cases "solveStore (writeCell st grid row col num) grid")
      show ?thesis
      proof (cases ok)
        case True
        with le v r 2(5) show ?thesis by (simp add: eq)
      next
        case False
        with 2(2) le v r have s_eq: "st' = writeCell st grid row col num" by simp
        from le v r False have e2: "solveLoopStore st grid row col num =
           solveLoopStore (writeCell st grid row col 0) grid row col (num + 1)"
          by (simp add: eq s_eq)
        from False have okF: "ok = False" by simp
        from 2(3) [OF le v r [symmetric] okF] 2(5) e2 s_eq
        show ?thesis by simp
      qed
    qed
  qed
qed

termination solveStore
proof (relation "measures
    [\<lambda>x. case x of Inl (st, ref) \<Rightarrow> 0
        | Inr (st, ref, row, col, num) \<Rightarrow> (if row < 9 \<and> col < 9 \<and> 0 < num then 0 else 1),
     \<lambda>x. case x of Inl (st, ref) \<Rightarrow> emptyCount (readGrid st ref)
        | Inr (st, ref, row, col, num) \<Rightarrow> emptyCount (readGrid (writeCell st ref row col 0) ref),
     \<lambda>x. case x of Inl (st, ref) \<Rightarrow> 11
        | Inr (st, ref, row, col, num) \<Rightarrow> nat (10 - num)]", goal_cases)
  case 1
  then show ?case by simp
next
  case (2 st grid p row col)
  then have "row < 9 \<and> col < 9 \<and> rowsOf st (grid row) col = 0"
    using findEmptyCell_readGrid by metis
  then show ?case by (simp add: writeCell_same)
next
  case (3 st grid row col num)
  then show ?case
    by (auto simp: emptyCount_writeCell_less)
next
  case (4 st grid row col num x y)
  then have "y = writeCell st grid row col num"
    using solveStore_restores_dom(1) [of "writeCell st grid row col num" grid]
    by (metis fst_conv snd_conv)
  with 4 show ?case by auto
next
  case (5 st grid row col num)
  then show ?case by auto
qed

function countSolutionsStore :: "store \<Rightarrow> gridRef \<Rightarrow> nat \<Rightarrow> nat \<times> store"
  and countLoopStore :: "store \<Rightarrow> gridRef \<Rightarrow> nat \<Rightarrow> nat \<Rightarrow> int \<Rightarrow> nat \<Rightarrow> nat \<times> store" where
  "countSolutionsStore st grid cnt =
     (if cnt > 1 then (cnt, st)
      else case findEmptyCell (readGrid st grid) of
             None \<Rightarrow> (cnt + 1, st)
           | Some (row, col) \<Rightarrow> countLoopStore st grid row col 1 cnt)"
| "countLoopStore st grid row col num cnt =
     (if num \<le> 9 then
        (if isValidPlacement (readGrid st grid) row col num then
           (case countSolutionsStore (writeCell st grid row col num) grid cnt of
              (cnt', st') \<Rightarrow> countLoopStore (writeCell st' grid row col 0) grid row col (num + 1) cnt')
         else countLoopStore st grid row col (num + 1) cnt)
      else (cnt, st))"
  by pat_completeness auto

lemma countSolutionsStore_restores_dom:
  "countSolutionsStore_countLoopStore_dom (Inl (st, ref, n)) \<Longrightarrow>
     snd (countSolutionsStore st ref n) = st"
  "countSolutionsStore_countLoopStore_dom (Inr (st, ref, row, col, num, n)) \<Longrightarrow>
     snd (countLoopStore st ref row col num n) = st \<or>
     snd (countLoopStore st ref row col num n) = writeCell st ref row col 0"
proof (induct rule: countSolutionsStore_countLoopStore.pinduct)
  case (1 st grid cnt)
  show ?case
  proof (cases "cnt > 1")
    case True
    with 1(1) show ?thesis by (simp add: countSolutionsStore.psimps)
  next
    case c: False
    show ?thesis
    proof (cases "findEmptyCell (readGrid st grid)")
      case None
      with 1(1) c show ?thesis by (simp add: countSolutionsStore.psimps)
    next
      case (Some p)
      obtain row col where p: "p = (row, col)" by (cases p)
      from Some p have z: "rowsOf st (grid row) col = 0" using findEmptyCell_readGrid by blast
      from 1(1) c Some p have eq: "countSolutionsStore st grid cnt = countLoopStore st grid row col 1 cnt"
        by (simp add: countSolutionsStore.psimps)
      from 1(2) [OF c Some p [symmetric]] z eq show ?thesis by (simp add: writeCell_same)
    qed
  qed
next
  case (2 st grid row col num cnt)
  note eq = countLoopStore.psimps [OF 2(1)]
  show ?case
  proof (cases "num \<le> 9")
    case False
    then show ?thesis by (simp add: eq)
  next
    case le: True
    show ?thesis
    proof (cases "isValidPlacement (readGrid st grid) row col num")
      case False
      with le 2(4) show ?thesis by (simp add: eq)
    next
      case v: True
      obtain n' st' where r: "countSolutionsStore (writeCell st grid row col num) grid cnt = (n', st')"
        by (cases "countSolutionsStore (writeCell st grid row col num) grid cnt")
      with 2(2) le v have s_eq: "st' = writeCell st grid row col num" by simp
      from le v r have e2: "countLoopStore st grid row col num cnt =
           countLoopStore (writeCell st grid row col 0) grid row col (num + 1) n'"
        by (simp add: eq s_eq)
      from 2(3) [OF le v r [symmetric]] e2 s_eq show ?thesis by simp
    qed
  qed
qed

termination countSolutionsStore
proof (relation "measures
    [\<lambda>x. case x of Inl (st, ref, n) \<Rightarrow> 0
        | Inr (st, ref, row, col, num, n) \<Rightarrow> (if row < 9 \<and> col < 9 \<and> 0 < num then 0 else 1),
     \<lambda>x. case x of Inl (st, ref, n) \<Rightarrow> emptyCount (readGrid st ref)
        | Inr (st, ref, row, col, num, n) \<Rightarrow> emptyCount (readGrid (writeCell st ref row col 0) ref),
     \<lambda>x. case x of Inl (st, ref, n) \<Rightarrow> 11
        | Inr (st, ref, row, col, num, n) \<Rightarrow> nat (10 - num)]", goal_cases)
  case 1
  then show ?case by simp
next
  case (2 st grid cnt p row col)
  then have "row < 9 \<and> col < 9 \<and> rowsOf st (grid row) col = 0"
    using findEmptyCell_readGrid by metis
  then show ?case by (simp add: writeCell_same)
next
  case (3 st grid row col num cnt)
  then show ?case
    by (auto simp: emptyCount_writeCell_less)
next
  case (4 st grid row col num cnt x y)
  then have "y = writeCell st grid row col num"
    using countSolutionsStore_restores_dom(1) [of "writeCell st grid row col num" grid cnt]
    by (metis snd_conv)
  with 4 show ?case by auto
next
  case (5 st grid row col num cnt)
  then show ?case by auto
qed

declare solveStore.simps [simp del] solveLoopStore.simps [simp del]
declare countSolutionsStore.simps [simp del] countLoopStore.simps [simp del]

text \<open>
  The loop of \<^verbatim>\<open>createPuzzle\<close> on the store; \<open>puzzle\<close> is the reference of the copy. As
  \<open>removeCells\<close>, it returns the counter and the coordinates it has not reached.
\<close>

fun removeCellsStore ::
  "store \<Rightarrow> gridRef \<Rightarrow> (nat \<times> nat) list \<Rightarrow> int \<Rightarrow> int \<Rightarrow>
     store \<times> int \<times> (nat \<times> nat) list" where
  "removeCellsStore st puzzle [] removed cellsToRemove = (st, removed, [])"
| "removeCellsStore st puzzle ((row, col) # rest) removed cellsToRemove =
     (if removed \<ge> cellsToRemove then (st, removed, (row, col) # rest)
      else
        (let temp = rowsOf st (puzzle row) col
         in case countSolutionsStore (writeCell st puzzle row col 0) puzzle 0 of
              (solutionCount, st') \<Rightarrow>
                if solutionCount = 1
                then removeCellsStore st' puzzle rest (removed + 1) cellsToRemove
                else removeCellsStore (writeCell st' puzzle row col temp) puzzle rest
                       removed cellsToRemove))"

text \<open>
  \<^verbatim>\<open>createPuzzle(solution, difficulty)\<close> on the store: it returns the store it leaves,
  the reference of the puzzle and the random source it leaves.
\<close>

definition createPuzzleStore ::
  "store \<Rightarrow> gridRef \<Rightarrow> Difficulty \<Rightarrow> rng \<Rightarrow> store \<times> gridRef \<times> rng" where
  "createPuzzleStore st solution difficulty rng =
     (case copyGrid st solution of
        (st1, puzzle) \<Rightarrow>
          (let config = DIFFICULTY_CONFIGS difficulty
           in case randomInRange (min_cells (visibleCells config)) (max_cells (visibleCells config)) rng of
                (cellsToShow, rng1) \<Rightarrow>
                  (let cellsToRemove = int (GRID_SIZE * GRID_SIZE) - cellsToShow
                   in case shuffleArray positions rng1 of
                        (shuffledPositions, rng2) \<Rightarrow>
                          (case removeCellsStore st1 puzzle shuffledPositions 0 cellsToRemove of
                             (st2, removed', untried') \<Rightarrow> (st2, puzzle, rng2)))))"

text \<open>\<^verbatim>\<open>solvePuzzle(puzzle)\<close> on the store: the store it leaves and the reference or \<^verbatim>\<open>null\<close>.\<close>

definition solvePuzzleStore :: "store \<Rightarrow> gridRef \<Rightarrow> store \<times> gridRef option" where
  "solvePuzzleStore st puzzle =
     (case copyGrid st puzzle of
        (st1, solution) \<Rightarrow>
          (case solveStore st1 solution of
             (True, st2) \<Rightarrow> (st2, Some solution)
           | (False, st2) \<Rightarrow> (st2, None)))"

subsection \<open>What a run on the store leaves untouched\<close>

text \<open>\<open>st'\<close> differs from \<open>st\<close> at most in the content of the rows behind \<open>ref\<close>.\<close>

definition onlyRowsOf :: "gridRef \<Rightarrow> store \<Rightarrow> store \<Rightarrow> bool" where
  "onlyRowsOf ref st st' =
     (fresh st' = fresh st \<and> (\<forall>a. a \<notin> ref ` {..<GRID_SIZE} \<longrightarrow> rowsOf st' a = rowsOf st a))"

lemma onlyRowsOf_refl: "onlyRowsOf ref st st"
  by (simp add: onlyRowsOf_def)

lemma onlyRowsOf_trans: "onlyRowsOf ref st st' \<Longrightarrow> onlyRowsOf ref st' st'' \<Longrightarrow> onlyRowsOf ref st st''"
  by (simp add: onlyRowsOf_def)

lemma onlyRowsOf_writeCell: "row < 9 \<Longrightarrow> onlyRowsOf ref st (writeCell st ref row col v)"
  by (auto simp: onlyRowsOf_def writeCell_def)

lemma solveStore_frame:
  "onlyRowsOf ref st (snd (solveStore st ref))"
  "row < 9 \<Longrightarrow> onlyRowsOf ref st (snd (solveLoopStore st ref row col num))"
proof (induct st ref and st ref row col num rule: solveStore_solveLoopStore.induct)
  case (1 st grid)
  show ?case
  proof (cases "findEmptyCell (readGrid st grid)")
    case None
    then show ?thesis by (simp add: solveStore.simps onlyRowsOf_refl)
  next
    case (Some p)
    obtain row col where p: "p = (row, col)" by (cases p)
    from Some p have b: "row < 9" using findEmptyCell_readGrid by blast
    from 1 [OF Some p [symmetric] b] Some p show ?thesis by (simp add: solveStore.simps)
  qed
next
  case (2 st grid row col num)
  note eq = solveLoopStore.simps [of st grid row col num]
  show ?case
  proof (cases "num \<le> 9")
    case False
    then show ?thesis by (simp add: eq onlyRowsOf_refl)
  next
    case le: True
    show ?thesis
    proof (cases "isValidPlacement (readGrid st grid) row col num")
      case False
      with le 2(3) [OF le False 2(4)] show ?thesis by (simp add: eq)
    next
      case v: True
      obtain ok st' where r: "solveStore (writeCell st grid row col num) grid = (ok, st')"
        by (cases "solveStore (writeCell st grid row col num) grid")
      have w: "onlyRowsOf grid st (writeCell st grid row col num)"
        using 2(4) by (rule onlyRowsOf_writeCell)
      from 2(1) [OF le v] r have "onlyRowsOf grid (writeCell st grid row col num) st'" by simp
      with w have s1: "onlyRowsOf grid st st'" by (rule onlyRowsOf_trans)
      show ?thesis
      proof (cases ok)
        case True
        with le v r s1 show ?thesis by (simp add: eq)
      next
        case False
        then have okF: "ok = False" by simp
        have "onlyRowsOf grid st' (writeCell st' grid row col 0)"
          using 2(4) by (rule onlyRowsOf_writeCell)
        with s1 have "onlyRowsOf grid st (writeCell st' grid row col 0)" by (rule onlyRowsOf_trans)
        from this 2(2) [OF le v r [symmetric] okF 2(4)]
        have "onlyRowsOf grid st (snd (solveLoopStore (writeCell st' grid row col 0) grid row col (num + 1)))"
          by (rule onlyRowsOf_trans)
        with le v r False show ?thesis by (simp add: eq)
      qed
    qed
  qed
qed

lemma countSolutionsStore_frame:
  "onlyRowsOf ref st (snd (countSolutionsStore st ref n))"
  "row < 9 \<Longrightarrow> onlyRowsOf ref st (snd (countLoopStore st ref row col num n))"
proof (induct st ref n and st ref row col num n rule: countSolutionsStore_countLoopStore.induct)
  case (1 st grid cnt)
  show ?case
  proof (cases "cnt > 1")
    case True
    then show ?thesis by (simp add: countSolutionsStore.simps onlyRowsOf_refl)
  next
    case c: False
    show ?thesis
    proof (cases "findEmptyCell (readGrid st grid)")
      case None
      with c show ?thesis by (simp add: countSolutionsStore.simps onlyRowsOf_refl)
    next
      case (Some p)
      obtain row col where p: "p = (row, col)" by (cases p)
      from Some p have b: "row < 9" using findEmptyCell_readGrid by blast
      from 1 [OF c Some p [symmetric] b] c Some p show ?thesis
        by (simp add: countSolutionsStore.simps)
    qed
  qed
next
  case (2 st grid row col num cnt)
  note eq = countLoopStore.simps [of st grid row col num cnt]
  show ?case
  proof (cases "num \<le> 9")
    case False
    then show ?thesis by (simp add: eq onlyRowsOf_refl)
  next
    case le: True
    show ?thesis
    proof (cases "isValidPlacement (readGrid st grid) row col num")
      case False
      with le 2(3) [OF le False 2(4)] show ?thesis by (simp add: eq)
    next
      case v: True
      obtain n' st' where r: "countSolutionsStore (writeCell st grid row col num) grid cnt = (n', st')"
        by (cases "countSolutionsStore (writeCell st grid row col num) grid cnt")
      have w: "onlyRowsOf grid st (writeCell st grid row col num)"
        using 2(4) by (rule onlyRowsOf_writeCell)
      from 2(1) [OF le v] r have "onlyRowsOf grid (writeCell st grid row col num) st'" by simp
      with w have s1: "onlyRowsOf grid st st'" by (rule onlyRowsOf_trans)
      have "onlyRowsOf grid st' (writeCell st' grid row col 0)"
        using 2(4) by (rule onlyRowsOf_writeCell)
      with s1 have "onlyRowsOf grid st (writeCell st' grid row col 0)" by (rule onlyRowsOf_trans)
      from this 2(2) [OF le v r [symmetric] 2(4)]
      have "onlyRowsOf grid st (snd (countLoopStore (writeCell st' grid row col 0) grid row col (num + 1) n'))"
        by (rule onlyRowsOf_trans)
      with le v r show ?thesis by (simp add: eq)
    qed
  qed
qed

lemma removeCellsStore_frame:
  "set ps \<subseteq> set positions \<Longrightarrow>
     onlyRowsOf ref st (fst (removeCellsStore st ref ps removed target))"
proof (induction st ref ps removed target rule: removeCellsStore.induct)
  case (1 st puzzle removed cellsToRemove)
  then show ?case by (simp add: onlyRowsOf_refl)
next
  case (2 st puzzle row col rest removed cellsToRemove)
  show ?case
  proof (cases "removed \<ge> cellsToRemove")
    case True
    then show ?thesis by (simp add: onlyRowsOf_refl)
  next
    case more: False
    from 2(3) have b: "row < 9" and rest: "set rest \<subseteq> set positions"
      by (simp_all add: set_positions)
    let ?st1 = "writeCell st puzzle row col 0"
    obtain n st' where r: "countSolutionsStore ?st1 puzzle 0 = (n, st')"
      by (cases "countSolutionsStore ?st1 puzzle 0")
    have "onlyRowsOf puzzle st ?st1" using b by (rule onlyRowsOf_writeCell)
    moreover from countSolutionsStore_frame(1) [of puzzle ?st1 0] r
    have "onlyRowsOf puzzle ?st1 st'" by simp
    ultimately have s1: "onlyRowsOf puzzle st st'" by (rule onlyRowsOf_trans)
    show ?thesis
    proof (cases "n = 1")
      case True
      from s1 2(1) [OF more refl r [symmetric] True rest]
      have "onlyRowsOf puzzle st (fst (removeCellsStore st' puzzle rest (removed + 1) cellsToRemove))"
        by (rule onlyRowsOf_trans)
      with more r True show ?thesis by simp
    next
      case False
      let ?st2 = "writeCell st' puzzle row col (rowsOf st (puzzle row) col)"
      have "onlyRowsOf puzzle st' ?st2" using b by (rule onlyRowsOf_writeCell)
      with s1 have "onlyRowsOf puzzle st ?st2" by (rule onlyRowsOf_trans)
      from this 2(2) [OF more refl r [symmetric] False rest]
      have "onlyRowsOf puzzle st (fst (removeCellsStore ?st2 puzzle rest removed cellsToRemove))"
        by (rule onlyRowsOf_trans)
      with more r False show ?thesis by simp
    qed
  qed
qed

subsection \<open>The state-passing model is the run on the store\<close>

text \<open>
  One write through a reference with distinct rows is the \<open>setCell\<close> of the state-passing
  model on the content of the grid.
\<close>

lemma writeCell_view:
  assumes "inj_on ref {..<9}" "row < 9" "col < 9"
  shows "readGrid (writeCell st ref row col v) ref = setCell (readGrid st ref) row col v"
proof (rule ext, rule ext)
  fix r c
  from assms(1,2) have "r < 9 \<Longrightarrow> ref r = ref row \<longleftrightarrow> r = row" by (auto simp: inj_on_def)
  then show "readGrid (writeCell st ref row col v) ref r c = setCell (readGrid st ref) row col v r c"
    using assms(2,3) by (auto simp: readGrid_def writeCell_def setCell_apply)
qed

lemma solveStore_view:
  "inj_on ref {..<9} \<Longrightarrow>
     solve (readGrid st ref) = (fst (solveStore st ref), readGrid (snd (solveStore st ref)) ref)"
  "inj_on ref {..<9} \<Longrightarrow> row < 9 \<Longrightarrow> col < 9 \<Longrightarrow>
     solveLoop (readGrid st ref) row col num =
       (fst (solveLoopStore st ref row col num), readGrid (snd (solveLoopStore st ref row col num)) ref)"
proof (induct st ref and st ref row col num rule: solveStore_solveLoopStore.induct)
  case (1 st grid)
  show ?case
  proof (cases "findEmptyCell (readGrid st grid)")
    case None
    then show ?thesis by (simp add: solveStore.simps solve.simps)
  next
    case (Some p)
    obtain row col where p: "p = (row, col)" by (cases p)
    from Some p have b: "row < 9" "col < 9" using findEmptyCell_readGrid by blast+
    from 1(1) [OF Some p [symmetric] 1(2) b] Some p show ?thesis
      by (simp add: solveStore.simps solve.simps)
  qed
next
  case (2 st grid row col num)
  note eq = solveLoopStore.simps [of st grid row col num]
  note eq' = solveLoop.simps [of "readGrid st grid" row col num]
  note view = writeCell_view [OF 2(4,5,6)]
  show ?case
  proof (cases "num \<le> 9")
    case False
    then show ?thesis by (simp add: eq eq')
  next
    case le: True
    show ?thesis
    proof (cases "isValidPlacement (readGrid st grid) row col num")
      case False
      with le 2(3) [OF le False 2(4,5,6)] show ?thesis by (simp add: eq eq')
    next
      case v: True
      obtain ok st' where r: "solveStore (writeCell st grid row col num) grid = (ok, st')"
        by (cases "solveStore (writeCell st grid row col num) grid")
      from 2(1) [OF le v 2(4)] r
      have r': "solve (setCell (readGrid st grid) row col num) = (ok, readGrid st' grid)"
        by (simp add: view)
      show ?thesis
      proof (cases ok)
        case True
        with le v r r' show ?thesis by (simp add: eq eq')
      next
        case False
        then have okF: "ok = False" by simp
        from 2(2) [OF le v r [symmetric] okF 2(4,5,6)] le v r r' False
        show ?thesis by (simp add: eq eq' view)
      qed
    qed
  qed
qed

lemma countSolutionsStore_view:
  "inj_on ref {..<9} \<Longrightarrow>
     countSolutions (readGrid st ref) n =
       (fst (countSolutionsStore st ref n), readGrid (snd (countSolutionsStore st ref n)) ref)"
  "inj_on ref {..<9} \<Longrightarrow> row < 9 \<Longrightarrow> col < 9 \<Longrightarrow>
     countLoop (readGrid st ref) row col num n =
       (fst (countLoopStore st ref row col num n),
        readGrid (snd (countLoopStore st ref row col num n)) ref)"
proof (induct st ref n and st ref row col num n rule: countSolutionsStore_countLoopStore.induct)
  case (1 st grid cnt)
  show ?case
  proof (cases "cnt > 1")
    case True
    then show ?thesis by (simp add: countSolutionsStore.simps countSolutions.simps)
  next
    case c: False
    show ?thesis
    proof (cases "findEmptyCell (readGrid st grid)")
      case None
      with c show ?thesis by (simp add: countSolutionsStore.simps countSolutions.simps)
    next
      case (Some p)
      obtain row col where p: "p = (row, col)" by (cases p)
      from Some p have b: "row < 9" "col < 9" using findEmptyCell_readGrid by blast+
      from 1(1) [OF c Some p [symmetric] 1(2) b] c Some p show ?thesis
        by (simp add: countSolutionsStore.simps countSolutions.simps)
    qed
  qed
next
  case (2 st grid row col num cnt)
  note eq = countLoopStore.simps [of st grid row col num cnt]
  note eq' = countLoop.simps [of "readGrid st grid" row col num cnt]
  note view = writeCell_view [OF 2(4,5,6)]
  show ?case
  proof (cases "num \<le> 9")
    case False
    then show ?thesis by (simp add: eq eq')
  next
    case le: True
    show ?thesis
    proof (cases "isValidPlacement (readGrid st grid) row col num")
      case False
      with le 2(3) [OF le False 2(4,5,6)] show ?thesis by (simp add: eq eq')
    next
      case v: True
      obtain n' st' where r: "countSolutionsStore (writeCell st grid row col num) grid cnt = (n', st')"
        by (cases "countSolutionsStore (writeCell st grid row col num) grid cnt")
      from 2(1) [OF le v 2(4)] r
      have r': "countSolutions (setCell (readGrid st grid) row col num) cnt = (n', readGrid st' grid)"
        by (simp add: view)
      from 2(2) [OF le v r [symmetric] 2(4,5,6)] le v r r'
      show ?thesis by (simp add: eq eq' view)
    qed
  qed
qed

lemma removeCellsStore_view:
  "inj_on ref {..<9} \<Longrightarrow> set ps \<subseteq> set positions \<Longrightarrow>
     removeCells (readGrid st ref) ps removed target =
       (readGrid (fst (removeCellsStore st ref ps removed target)) ref,
        snd (removeCellsStore st ref ps removed target))"
proof (induction st ref ps removed target rule: removeCellsStore.induct)
  case (1 st puzzle removed cellsToRemove)
  then show ?case by simp
next
  case (2 st puzzle row col rest removed cellsToRemove)
  show ?case
  proof (cases "removed \<ge> cellsToRemove")
    case True
    then show ?thesis by simp
  next
    case more: False
    from 2(4) have b: "row < 9" "col < 9" and rest: "set rest \<subseteq> set positions"
      by (simp_all add: set_positions)
    note view = writeCell_view [OF 2(3) b]
    let ?st1 = "writeCell st puzzle row col 0"
    obtain n st' where r: "countSolutionsStore ?st1 puzzle 0 = (n, st')"
      by (cases "countSolutionsStore ?st1 puzzle 0")
    from countSolutionsStore_view(1) [OF 2(3), of ?st1 0] r
    have r': "countSolutions (setCell (readGrid st puzzle) row col 0) 0 = (n, readGrid st' puzzle)"
      by (simp add: view)
    have temp: "readGrid st puzzle row col = rowsOf st (puzzle row) col"
      using b by (simp add: readGrid_def)
    show ?thesis
    proof (cases "n = 1")
      case True
      from 2(1) [OF more refl r [symmetric] True 2(3) rest] more r r' True
      show ?thesis by simp
    next
      case False
      from 2(2) [OF more refl r [symmetric] False 2(3) rest] more r r' False
      show ?thesis by (simp add: view temp)
    qed
  qed
qed

lemma copyGrid_frame:
  assumes "copyGrid st ref = (st1, ref1)"
  shows "fresh st1 = fresh st + 9" "\<And>row. ref1 row = fresh st + row"
    "\<And>a. a < fresh st \<Longrightarrow> rowsOf st1 a = rowsOf st a"
    "readGrid st1 ref1 = readGrid st ref"
  using assms by (auto simp: copyGrid_def Let_def readGrid_def intro!: ext)

text \<open>All 81 cells of the grid behind \<open>ref\<close> hold in \<open>st'\<close> the values they hold in \<open>st\<close>.\<close>

definition sameCells :: "store \<Rightarrow> store \<Rightarrow> gridRef \<Rightarrow> bool" where
  "sameCells st st' ref =
     list_all (\<lambda>(row, col). rowsOf st' (ref row) col = rowsOf st (ref row) col) positions"

text \<open>The rows behind \<open>ref\<close> were allocated after \<open>st\<close>: no grid of \<open>st\<close> shares them.\<close>

definition newRows :: "store \<Rightarrow> gridRef \<Rightarrow> bool" where
  "newRows st ref = list_all (\<lambda>row. fresh st \<le> ref row) [0..<GRID_SIZE]"

text \<open>The rows behind \<open>ref\<close> are allocated in \<open>st\<close>.\<close>

definition allocated :: "store \<Rightarrow> gridRef \<Rightarrow> bool" where
  "allocated st ref = list_all (\<lambda>row. ref row < fresh st) [0..<GRID_SIZE]"

lemma run_on_copy:
  assumes al: "allocated st argRef" and cp: "copyGrid st argRef = (st1, ref1)"
    and run: "onlyRowsOf ref1 st1 st2"
  shows "sameCells st st2 argRef" and "newRows st ref1" and "inj_on ref1 {..<9}"
proof -
  note f = copyGrid_frame [OF cp]
  have arg: "\<And>row. row < 9 \<Longrightarrow> argRef row < fresh st"
    using al by (simp add: allocated_def list_all_iff)
  have "\<And>row. row < 9 \<Longrightarrow> rowsOf st2 (argRef row) = rowsOf st (argRef row)"
  proof -
    fix row :: nat assume r: "row < 9"
    from arg [OF r] have "argRef row \<notin> ref1 ` {..<9}" by (auto simp: f(2))
    with run have "rowsOf st2 (argRef row) = rowsOf st1 (argRef row)"
      by (simp add: onlyRowsOf_def)
    with f(3) [OF arg [OF r]] show "rowsOf st2 (argRef row) = rowsOf st (argRef row)"
      by simp
  qed
  then show "sameCells st st2 argRef"
    by (auto simp: sameCells_def list_all_iff set_positions)
  show "newRows st ref1"
    by (simp add: newRows_def list_all_iff f(2))
  show "inj_on ref1 {..<9}" by (simp add: inj_on_def f(2))
qed

lemma createPuzzleStore_run:
  obtains st1 st2 puzzleRef rng' where
    "copyGrid st argRef = (st1, puzzleRef)"
    "createPuzzleStore st argRef d rng = (st2, puzzleRef, rng')"
    "onlyRowsOf puzzleRef st1 st2"
    "readGrid st2 puzzleRef = createPuzzle (readGrid st argRef) d rng"
proof -
  obtain st1 puzzleRef where cp: "copyGrid st argRef = (st1, puzzleRef)"
    by (cases "copyGrid st argRef")
  note f = copyGrid_frame [OF cp]
  have inj: "inj_on puzzleRef {..<9}" by (simp add: inj_on_def f(2))
  obtain cellsToShow rng1 where a: "randomInRange (min_cells (visibleCells (DIFFICULTY_CONFIGS d)))
       (max_cells (visibleCells (DIFFICULTY_CONFIGS d))) rng = (cellsToShow, rng1)"
    by (cases "randomInRange (min_cells (visibleCells (DIFFICULTY_CONFIGS d)))
       (max_cells (visibleCells (DIFFICULTY_CONFIGS d))) rng")
  obtain shuffled rng2 where b: "shuffleArray positions rng1 = (shuffled, rng2)"
    by (cases "shuffleArray positions rng1")
  from b have "shuffled = fst (shuffleArray positions rng1)" by simp
  then have sub: "set shuffled \<subseteq> set positions" by (simp add: set_shuffleArray)
  obtain st2 removed' untried' where
    rc: "removeCellsStore st1 puzzleRef shuffled 0 (81 - cellsToShow) = (st2, removed', untried')"
    by (cases "removeCellsStore st1 puzzleRef shuffled 0 (81 - cellsToShow)")
  have c: "createPuzzleStore st argRef d rng = (st2, puzzleRef, rng2)"
    by (simp add: createPuzzleStore_def cp a b rc Let_def)
  from removeCellsStore_frame [OF sub, of puzzleRef st1 0 "81 - cellsToShow"] rc
  have fr: "onlyRowsOf puzzleRef st1 st2" by simp
  from removeCellsStore_view [OF inj sub, of st1 0 "81 - cellsToShow"] rc
  have "removeCells (readGrid st argRef) shuffled 0 (81 - cellsToShow) =
          (readGrid st2 puzzleRef, removed', untried')"
    by (simp add: f(4))
  then have "createPuzzle (readGrid st argRef) d rng = readGrid st2 puzzleRef"
    by (simp add: createPuzzle_def createPuzzleRun_def a b Let_def)
  with cp c fr that show thesis by simp
qed

lemma solvePuzzleStore_run:
  obtains st1 st2 solutionRef ok where
    "copyGrid st argRef = (st1, solutionRef)"
    "solvePuzzleStore st argRef = (st2, if ok then Some solutionRef else None)"
    "onlyRowsOf solutionRef st1 st2"
    "solvePuzzle (readGrid st argRef) = (if ok then Some (readGrid st2 solutionRef) else None)"
proof -
  obtain st1 solutionRef where cp: "copyGrid st argRef = (st1, solutionRef)"
    by (cases "copyGrid st argRef")
  note f = copyGrid_frame [OF cp]
  have inj: "inj_on solutionRef {..<9}" by (simp add: inj_on_def f(2))
  obtain ok st2 where s: "solveStore st1 solutionRef = (ok, st2)"
    by (cases "solveStore st1 solutionRef")
  have sp: "solvePuzzleStore st argRef = (st2, if ok then Some solutionRef else None)"
    by (cases ok) (simp_all add: solvePuzzleStore_def cp s)
  from solveStore_frame(1) [of solutionRef st1] s have fr: "onlyRowsOf solutionRef st1 st2" by simp
  from solveStore_view(1) [OF inj, of st1] s
  have "solve (readGrid st argRef) = (ok, readGrid st2 solutionRef)" by (simp add: f(4))
  then have "solvePuzzle (readGrid st argRef) = (if ok then Some (readGrid st2 solutionRef) else None)"
    by (cases ok) (simp_all add: solvePuzzle_def)
  with cp sp fr that show thesis by simp
qed

text \<open>A store that holds the example solution in the rows at the addresses 0..8.\<close>

definition exampleStore :: store where
  "exampleStore = \<lparr>rowsOf = (\<lambda>a col. exampleSolution a col), fresh = 9\<rparr>"

definition exampleRef :: gridRef where
  "exampleRef = (\<lambda>row. row)"

lemma allocated_example: "allocated exampleStore exampleRef"
  by (simp add: allocated_def exampleStore_def exampleRef_def list_all_iff)

text \<open>On the store too, the counter leaves everything as it found it.\<close>

lemma countSolutionsStore_store:
  "snd (countSolutionsStore st ref n) = st"
  "snd (countLoopStore st ref row col num n) = st \<or>
   snd (countLoopStore st ref row col num n) = writeCell st ref row col 0"
proof (induct st ref n and st ref row col num n rule: countSolutionsStore_countLoopStore.induct)
  case (1 st grid cnt)
  show ?case
  proof (cases "cnt > 1")
    case True
    then show ?thesis by (simp add: countSolutionsStore.simps)
  next
    case c: False
    show ?thesis
    proof (cases "findEmptyCell (readGrid st grid)")
      case None
      with c show ?thesis by (simp add: countSolutionsStore.simps)
    next
      case (Some p)
      obtain row col where p: "p = (row, col)" by (cases p)
      from Some p have z: "rowsOf st (grid row) col = 0" using findEmptyCell_readGrid by blast
      from c Some p have eq: "countSolutionsStore st grid cnt = countLoopStore st grid row col 1 cnt"
        by (simp add: countSolutionsStore.simps)
      from 1 [OF c Some p [symmetric]] z eq show ?thesis by (simp add: writeCell_same)
    qed
  qed
next
  case (2 st grid row col num cnt)
  note eq = countLoopStore.simps [of st grid row col num cnt]
  show ?case
  proof (cases "num \<le> 9")
    case False
    then show ?thesis by (simp add: eq)
  next
    case le: True
    show ?thesis
    proof (cases "isValidPlacement (readGrid st grid) row col num")
      case False
      with le 2(3) show ?thesis by (simp add: eq)
    next
      case v: True
      obtain n' st' where r: "countSolutionsStore (writeCell st grid row col num) grid cnt = (n', st')"
        by (cases "countSolutionsStore (writeCell st grid row col num) grid cnt")
      with 2(1) le v have s_eq: "st' = writeCell st grid row col num" by simp
      from le v r have e2: "countLoopStore st grid row col num cnt =
           countLoopStore (writeCell st grid row col 0) grid row col (num + 1) n'"
        by (simp add: eq s_eq)
      from 2(2) [OF le v r [symmetric]] e2 s_eq show ?thesis by simp
    qed
  qed
qed

section \<open>A run of the carver that reaches its target\<close>

text \<open>
  A run of \<^verbatim>\<open>createPuzzle\<close> that reaches its target makes at least 41 removals, each
  one decided by a search of \<^verbatim>\<open>countSolutions\<close>. This section follows one such run on
  \<open>exampleSolution\<close>, with the result of every search derived from the completions of
  the puzzle: the draws are chosen so that the shuffle puts the 41 cells
  \<open>(row, col)\<close> with \<open>row + col\<close> even first, and the puzzle with exactly these cells
  empty is shown to have one completion by filling its cells one at a time, each with
  the one digit its row, column and block leave.
\<close>

subsection \<open>Grids with cells of the solution emptied\<close>

text \<open>The grid \<open>s\<close> with the listed cells emptied.\<close>

definition maskGrid :: "grid \<Rightarrow> (nat \<times> nat) list \<Rightarrow> grid" where
  "maskGrid s holes = (\<lambda>row col. if (row, col) \<in> set holes then 0 else s row col)"

lemma maskGrid_Nil: "maskGrid s [] = s"
  by (simp add: maskGrid_def)

lemma maskGrid_Cons: "setCell (maskGrid s holes) row col 0 = maskGrid s ((row, col) # holes)"
  by (rule ext, rule ext) (simp add: setCell_apply maskGrid_def)

lemma maskGrid_fill:
  "setCell (maskGrid s holes) row col (s row col) = maskGrid s (removeAll (row, col) holes)"
  by (rule ext, rule ext) (auto simp: setCell_apply maskGrid_def)

lemma fills_maskGrid:
  assumes "set holes \<subseteq> set holes'" "set holes' \<subseteq> set positions"
  shows "fills (maskGrid s holes') (maskGrid s holes)"
  using assms unfolding fills_def maskGrid_def by (auto simp: set_positions)

lemma completions_maskGrid_mono:
  assumes "set holes \<subseteq> set holes'" "set holes' \<subseteq> set positions"
  shows "completions (maskGrid s holes) \<subseteq> completions (maskGrid s holes')"
  using fills_trans [OF fills_maskGrid [OF assms]]
  by (auto simp: completions_def completion_def)

lemma solution_completes_maskGrid:
  assumes "isSolution s" "set holes \<subseteq> set positions"
  shows "s \<in> completions (maskGrid s holes)"
  using assms fills_maskGrid [of "[]" holes s]
  by (simp add: completions_def completion_def maskGrid_Nil)

text \<open>
  When every removal keeps the solution unique, the loop of \<^verbatim>\<open>createPuzzle\<close> accepts
  every coordinate it tries: after the coordinates \<open>ps\<close> it goes on with all of them
  emptied and the counter raised by their number.
\<close>

lemma removeCells_accepts:
  assumes s: "isSolution s"
  shows "set ps \<subseteq> set positions \<Longrightarrow> set cleared \<subseteq> set positions \<Longrightarrow>
     completions (maskGrid s (rev ps @ cleared)) = {s} \<Longrightarrow>
     removed + int (length ps) \<le> target \<Longrightarrow>
     removeCells (maskGrid s cleared) (ps @ rest) removed target =
       removeCells (maskGrid s (rev ps @ cleared)) rest (removed + int (length ps)) target"
proof (induction ps arbitrary: cleared removed)
  case Nil
  show ?case by simp
next
  case (Cons p ps)
  obtain row col where p: "p = (row, col)" by (cases p)
  from Cons.prems(1) p have b: "row < 9" "col < 9" and sub: "set ps \<subseteq> set positions"
    by (simp_all add: set_positions)
  let ?g = "maskGrid s cleared"
  let ?g1 = "setCell ?g row col 0"
  have board1: "set ((row, col) # cleared) \<subseteq> set positions"
    using Cons.prems(1,2) p by simp
  have boardAll: "set (rev (p # ps) @ cleared) \<subseteq> set positions"
    using Cons.prems(1,2) by simp
  have f: "fills ?g s"
    using fills_maskGrid [of "[]" cleared s] Cons.prems(2) by (simp add: maskGrid_Nil)
  have g1: "?g1 = maskGrid s ((row, col) # cleared)" by (rule maskGrid_Cons)
  have "completions ?g1 \<subseteq> completions (maskGrid s (rev (p # ps) @ cleared))"
    unfolding g1 by (rule completions_maskGrid_mono [OF _ boardAll]) (auto simp: p)
  with Cons.prems(3) have "completions ?g1 \<subseteq> {s}" by simp
  moreover have "s \<in> completions ?g1"
    unfolding g1 using s board1 by (rule solution_completes_maskGrid)
  ultimately have u: "completions ?g1 = {s}" by blast
  from removeCells_step(1) [OF s f b] u have cnt: "countSolutions ?g1 0 = (1, ?g1)" by simp
  from Cons.prems(4) have more: "\<not> target \<le> removed" by simp
  have step: "removeCells ?g ((p # ps) @ rest) removed target =
              removeCells ?g1 (ps @ rest) (removed + 1) target"
    using more cnt by (simp add: p)
  have u': "completions (maskGrid s (rev ps @ (row, col) # cleared)) = {s}"
    using Cons.prems(3) by (simp add: p)
  have le: "removed + 1 + int (length ps) \<le> target" using Cons.prems(4) by simp
  from Cons.IH [OF sub board1 u' le, of ] show ?case
    unfolding step g1 by (simp add: p add.assoc)
qed

subsection \<open>Cells with one candidate\<close>

text \<open>
  The values of the 27 cells \<^verbatim>\<open>isValidPlacement\<close> inspects for \<open>(row, col)\<close>: its row, its
  column and its block.
\<close>

definition seenAt :: "grid \<Rightarrow> nat \<Rightarrow> nat \<Rightarrow> int list" where
  "seenAt g row col =
     map (\<lambda>x. g row x) [0..<GRID_SIZE] @ map (\<lambda>x. g x col) [0..<GRID_SIZE] @
     concat (map (\<lambda>i. map (\<lambda>j. g ((row div BLOCK_SIZE) * BLOCK_SIZE + i)
                                ((col div BLOCK_SIZE) * BLOCK_SIZE + j))
                   [0..<BLOCK_SIZE]) [0..<BLOCK_SIZE])"

text \<open>
  In the solution \<open>s\<close> with the cells \<open>holes\<close> emptied, every digit but the solution's
  own is seen from \<open>(row, col)\<close>: the cell has one candidate.
\<close>

definition isSingle :: "grid \<Rightarrow> (nat \<times> nat) list \<Rightarrow> nat \<Rightarrow> nat \<Rightarrow> bool" where
  "isSingle s holes row col =
     (row < 9 \<and> col < 9 \<and>
      list_all (\<lambda>d. d = s row col \<or> d \<in> set (seenAt (maskGrid s holes) row col))
        [1, 2, 3, 4, 5, 6, 7, 8, 9])"

text \<open>
  One sweep over \<open>cells\<close> fills every cell that has one candidate when the sweep comes
  to it, and returns the cells still empty; \<open>sweeps n\<close> makes \<open>n\<close> sweeps over the cells
  still empty.
\<close>

fun sweep :: "grid \<Rightarrow> (nat \<times> nat) list \<Rightarrow> (nat \<times> nat) list \<Rightarrow> (nat \<times> nat) list" where
  "sweep s holes [] = holes"
| "sweep s holes ((row, col) # cells) =
     sweep s (if isSingle s holes row col then removeAll (row, col) holes else holes) cells"

fun sweeps :: "nat \<Rightarrow> grid \<Rightarrow> (nat \<times> nat) list \<Rightarrow> (nat \<times> nat) list" where
  "sweeps 0 s holes = holes"
| "sweeps (Suc n) s holes = sweeps n s (sweep s holes holes)"

lemma seenAt_invalid:
  "d \<in> set (seenAt g row col) \<longleftrightarrow> \<not> isValidPlacement g row col d"
  unfolding seenAt_def isValidPlacement_def list_all_iff Let_def by auto

lemma single_forced:
  assumes h: "completion (maskGrid s holes) h" and hole: "(row, col) \<in> set holes"
    and single: "isSingle s holes row col"
  shows "h row col = s row col"
proof (rule ccontr)
  assume ne: "h row col \<noteq> s row col"
  let ?g = "maskGrid s holes"
  from single have b: "row < 9" "col < 9" by (simp_all add: isSingle_def)
  from completion_range [OF h b] have "h row col \<in> set [1, 2, 3, 4, 5, 6, 7, 8, 9]"
    by auto
  with single ne have "h row col \<in> set (seenAt ?g row col)"
    unfolding isSingle_def list_all_iff by blast
  then have "\<not> isValidPlacement ?g row col (h row col)" by (simp add: seenAt_invalid)
  moreover have "?g row col = 0" using hole by (simp add: maskGrid_def)
  moreover from completion_range [OF h b] have "h row col \<noteq> 0" by simp
  ultimately have "\<not> completion (setCell ?g row col (h row col)) h"
    using b by (intro invalid_no_completion)
  with completion_step [OF h, of row col] show False by simp
qed

lemma sweep_step:
  assumes hole: "(row, col) \<in> set holes" and single: "isSingle s holes row col"
  shows "completions (maskGrid s holes) \<subseteq> completions (maskGrid s (removeAll (row, col) holes))"
proof
  fix h assume "h \<in> completions (maskGrid s holes)"
  then have h: "completion (maskGrid s holes) h" by (simp add: completions_def)
  from completion_step [OF h, of row col] single_forced [OF h hole single]
  show "h \<in> completions (maskGrid s (removeAll (row, col) holes))"
    by (simp add: completions_def maskGrid_fill)
qed

lemma sweep_sound:
  "completions (maskGrid s holes) \<subseteq> completions (maskGrid s (sweep s holes cells))"
proof (induction s holes cells rule: sweep.induct)
  case (1 s holes)
  show ?case by simp
next
  case (2 s holes row col cells)
  let ?holes' = "if isSingle s holes row col then removeAll (row, col) holes else holes"
  have "completions (maskGrid s holes) \<subseteq> completions (maskGrid s ?holes')"
  proof (cases "isSingle s holes row col \<and> (row, col) \<in> set holes")
    case True
    then show ?thesis using sweep_step [of row col holes s] by simp
  next
    case False
    then have "?holes' = holes" by auto
    then show ?thesis by simp
  qed
  with 2 show ?case by auto
qed

lemma sweeps_sound:
  "completions (maskGrid s holes) \<subseteq> completions (maskGrid s (sweeps n s holes))"
proof (induction n arbitrary: holes)
  case 0
  show ?case by simp
next
  case (Suc n)
  from sweep_sound [of s holes holes] Suc [of "sweep s holes holes"] show ?case by auto
qed

lemma sweeps_unique:
  assumes s: "isSolution s" and sub: "set holes \<subseteq> set positions"
    and solved: "sweeps n s holes = []"
  shows "completions (maskGrid s holes) = {s}"
proof -
  from s have "consistent s" "isFull s" by (simp_all add: isSolution_consistent_full)
  then have "completions s = {s}" by (rule completions_full)
  with sweeps_sound [of s holes n] solved have "completions (maskGrid s holes) \<subseteq> {s}"
    by (simp add: maskGrid_Nil)
  with solution_completes_maskGrid [OF s sub] show ?thesis by blast
qed

subsection \<open>The draws\<close>

text \<open>
  The loop of \<^verbatim>\<open>shuffleArray\<close> with the index \<open>j\<close> of every step given by \<open>js\<close> instead
  of drawn.
\<close>

fun swapLoop :: "nat \<Rightarrow> 'a list \<Rightarrow> (nat \<Rightarrow> nat) \<Rightarrow> 'a list" where
  "swapLoop 0 shuffled js = shuffled"
| "swapLoop (Suc k) shuffled js =
     (let i = Suc k; j = js i
      in swapLoop k (shuffled[i := shuffled ! j, j := shuffled ! i]) js)"

lemma shuffleLoop_swapLoop:
  "(\<And>i. 1 \<le> i \<Longrightarrow> i \<le> k \<Longrightarrow> nat \<lfloor>Rep_unitReal (rng (k - i)) * real (i + 1)\<rfloor> = js i) \<Longrightarrow>
     shuffleLoop k xs rng = (swapLoop k xs js, \<lambda>n. rng (n + k))"
proof (induction k arbitrary: xs rng)
  case 0
  show ?case by simp
next
  case (Suc k)
  have j: "nat \<lfloor>Rep_unitReal (rng 0) * real (Suc k + 1)\<rfloor> = js (Suc k)"
    using Suc.prems [of "Suc k"] by simp
  have "\<And>i. 1 \<le> i \<Longrightarrow> i \<le> k \<Longrightarrow>
          nat \<lfloor>Rep_unitReal (rng (Suc (k - i))) * real (i + 1)\<rfloor> = js i"
  proof -
    fix i assume i: "1 \<le> i" "i \<le> k"
    then have "Suc k - i = Suc (k - i)" by simp
    with Suc.prems [of i] i show "nat \<lfloor>Rep_unitReal (rng (Suc (k - i))) * real (i + 1)\<rfloor> = js i"
      by simp
  qed
  from Suc.IH [of "\<lambda>n. rng (Suc n)", OF this] j
  show ?case by (simp add: random_def Let_def)
qed

text \<open>
  The draws of the run: draw \<open>n\<close> is \<open>(n + 1/2) / (82 - n)\<close> for odd \<open>n < 40\<close> and
  \<open>99/100\<close> otherwise. Draw 0 goes to \<^verbatim>\<open>randomInRange\<close>, which returns 40 for the
  beginner range; draw \<open>n\<close> goes to the step \<open>i = 81 - n\<close> of the shuffle, which swaps
  the entries \<open>i\<close> and \<open>81 - i\<close> for even \<open>i \<ge> 42\<close> and leaves the entry \<open>i\<close> in place
  otherwise.
\<close>

lift_definition carveDraw :: "nat \<Rightarrow> unitReal" is
  "\<lambda>n. if odd n \<and> n < 40 then (real n + 1 / 2) / real (82 - n) else 99 / 100"
  by (auto simp: field_simps)


definition carveDraws :: rng where
  "carveDraws = (\<lambda>n. carveDraw n)"

definition carveIndex :: "nat \<Rightarrow> nat" where
  "carveIndex i = (if even i \<and> 42 \<le> i then 81 - i else i)"

lemma carveDraws_index:
  assumes "1 \<le> i" "i \<le> 80"
  shows "nat \<lfloor>Rep_unitReal (carveDraws (Suc (80 - i))) * real (i + 1)\<rfloor> = carveIndex i"
proof -
  define n where "n = Suc (80 - i)"
  have rep: "Rep_unitReal (carveDraws (Suc (80 - i))) =
               (if odd n \<and> n < 40 then (real n + 1 / 2) / real (82 - n) else 99 / 100)"
    by (simp add: carveDraws_def carveDraw.rep_eq n_def)
  show ?thesis
  proof (cases "even i \<and> 42 \<le> i")
    case True
    with assms have o: "odd n \<and> n < 40" by (auto simp: n_def)
    have e: "82 - n = i + 1" "n = 81 - i" using assms by (simp_all add: n_def)
    have "real (82 - n) \<noteq> 0" unfolding e by simp
    then have "(real n + 1 / 2) / real (82 - n) * real (82 - n) = real n + 1 / 2"
      by simp
    then have "Rep_unitReal (carveDraws (Suc (80 - i))) * real (i + 1) = real n + 1 / 2"
      unfolding rep using o e(1) by simp
    moreover have "\<lfloor>real n + 1 / 2\<rfloor> = int n" by linarith
    ultimately show ?thesis using True e(2) by (simp add: carveIndex_def)
  next
    case False
    with assms have o: "\<not> (odd n \<and> n < 40)" by (auto simp: n_def)
    have "Rep_unitReal (carveDraws (Suc (80 - i))) * real (i + 1) = 99 / 100 * real (i + 1)"
      unfolding rep using o by auto
    moreover have "\<lfloor>99 / 100 * real (i + 1)\<rfloor> = int i"
      using assms by (intro floor_unique) (simp_all add: field_simps)
    ultimately have "nat \<lfloor>Rep_unitReal (carveDraws (Suc (80 - i))) * real (i + 1)\<rfloor> = i"
      by (simp only: nat_int)
    moreover have "carveIndex i = i" using False by (auto simp: carveIndex_def)
    ultimately show ?thesis by (simp only:)
  qed
qed

lemma carveDraws_shuffle:
  "fst (shuffleArray positions (\<lambda>n. carveDraws (Suc n))) = swapLoop 80 positions carveIndex"
proof -
  have "shuffleLoop 80 positions (\<lambda>n. carveDraws (Suc n)) =
          (swapLoop 80 positions carveIndex, \<lambda>n. carveDraws (Suc (n + 80)))"
    by (rule shuffleLoop_swapLoop) (rule carveDraws_index)
  then show ?thesis by (simp add: shuffleArray_def length_positions)
qed

lemma carveDraws_range:
  "randomInRange 36 40 carveDraws = (40, \<lambda>n. carveDraws (Suc n))"
proof -
  have "\<lfloor>(99 / 100 :: real) * 5\<rfloor> = 4" by (intro floor_unique) simp_all
  then show ?thesis
    by (simp add: randomInRange_def random_def carveDraws_def carveDraw.rep_eq)
qed

subsection \<open>The run\<close>

text \<open>
  The run of \<^verbatim>\<open>createPuzzle\<close> on \<open>exampleSolution\<close> for the beginner level with these
  draws: the target is 41 removals, the loop accepts the first 41 coordinates and
  leaves at \<^verbatim>\<open>break\<close> with the other 40 untried.
\<close>

lemma carveDraws_run:
  "finalRemoved (createPuzzleRun exampleSolution beginner carveDraws) = 41"
  "removeTarget (createPuzzleRun exampleSolution beginner carveDraws) = 41"
  "length (untried (createPuzzleRun exampleSolution beginner carveDraws)) = 40"
proof -
  let ?s = exampleSolution
  let ?rng1 = "\<lambda>n. carveDraws (Suc n)"
  let ?sh = "fst (shuffleArray positions ?rng1)"
  let ?H = "take 41 ?sh"
  let ?R = "drop 41 ?sh"
  have len: "length ?sh = 81" by (simp add: length_shuffleArray length_positions)
  have sub: "set ?H \<subseteq> set positions"
    using set_take_subset [of 41 ?sh] by (simp add: set_shuffleArray)
  have solved: "sweeps 3 ?s (rev ?H) = []"
    unfolding carveDraws_shuffle by code_simp
  have u: "completions (maskGrid ?s (rev ?H @ [])) = {?s}"
    using sweeps_unique [OF isSolution_exampleSolution _ solved] sub by simp
  have "removeCells ?s ?sh 0 41 = removeCells (maskGrid ?s []) (?H @ ?R) 0 41"
    by (simp add: maskGrid_Nil)
  also have "\<dots> = removeCells (maskGrid ?s (rev ?H @ [])) ?R (0 + int (length ?H)) 41"
    by (rule removeCells_accepts [OF isSolution_exampleSolution sub _ u]) (simp_all add: len)
  also have "\<dots> = (maskGrid ?s (rev ?H @ []), 0 + int (length ?H), ?R)"
    by (rule removeCells_reached) (simp add: len)
  finally have run: "removeCells ?s ?sh 0 41 = (maskGrid ?s (rev ?H), 41, ?R)"
    by (simp add: len)
  obtain cellsToShow rng1 shuffled rng2 where
    ri: "randomInRange (min_cells (visibleCells (DIFFICULTY_CONFIGS beginner)))
       (max_cells (visibleCells (DIFFICULTY_CONFIGS beginner))) carveDraws = (cellsToShow, rng1)" and
    sh: "shuffleArray positions rng1 = (shuffled, rng2)" and
    r: "finalRemoved (createPuzzleRun ?s beginner carveDraws) =
          fst (snd (removeCells ?s shuffled 0 (81 - cellsToShow)))" and
    t: "removeTarget (createPuzzleRun ?s beginner carveDraws) = 81 - cellsToShow" and
    un: "untried (createPuzzleRun ?s beginner carveDraws) =
          snd (snd (removeCells ?s shuffled 0 (81 - cellsToShow)))"
    by (rule createPuzzleRun_unfold [of beginner carveDraws ?s]) blast
  from ri have c: "cellsToShow = 40" "rng1 = ?rng1" by (simp_all add: carveDraws_range)
  from sh c have s: "shuffled = ?sh" by simp
  show "finalRemoved (createPuzzleRun exampleSolution beginner carveDraws) = 41"
    "removeTarget (createPuzzleRun exampleSolution beginner carveDraws) = 41"
    "length (untried (createPuzzleRun exampleSolution beginner carveDraws)) = 40"
    by (simp_all add: r t un c(1) s run len)
qed

section \<open>The constraint checker\<close>

text \<open>
  C3, as stated, fails: \<^verbatim>\<open>isValidPlacement\<close> scans the whole row, the whole column and
  the whole block, the cell \<open>(row, col)\<close> included. On the grid whose only value is a 5
  at \<open>(0, 0)\<close>, the digit 5 appears in no other cell, yet the check of 5 at \<open>(0, 0)\<close>
  returns false.
\<close>

theorem isValidPlacement_own_cell_counterexample:
  "\<not> appearsElsewhere (setCell emptyGrid 0 0 5) 0 0 5 \<and>
   \<not> isValidPlacement (setCell emptyGrid 0 0 5) 0 0 5"
proof -
  have "\<not> appearsElsewhere (setCell emptyGrid 0 0 5) 0 0 5"
    by (auto simp: appearsElsewhere_iff emptyGrid_def setCell_apply)
  moreover have "\<not> isValidPlacement (setCell emptyGrid 0 0 5) 0 0 5"
  proof
    assume "isValidPlacement (setCell emptyGrid 0 0 5) 0 0 5"
    then have "\<forall>r<9. \<forall>c<9. sameUnit 0 0 r c \<longrightarrow> setCell emptyGrid 0 0 5 r c \<noteq> 5"
      by (simp add: isValidPlacement_iff)
    then have "sameUnit 0 0 0 0 \<longrightarrow> setCell emptyGrid 0 0 5 0 0 \<noteq> 5"
      by (metis zero_less_numeral)
    then show False by (simp add: sameUnit_def setCell_apply)
  qed
  ultimately show ?thesis by simp
qed

text \<open>
  C3, amended: for every grid, every row and column in \<open>0..8\<close> and every value,
  \<^verbatim>\<open>isValidPlacement\<close> returns false exactly when the value appears in some cell of the
  same row, column or 3x3 block, the cell \<open>(row, col)\<close> itself included. When the cell
  \<open>(row, col)\<close> does not hold the value (the callers only test empty cells), this is
  the same as the value appearing elsewhere in the row, column or block.
\<close>

theorem isValidPlacement_checks_units:
  assumes "row < GRID_SIZE" and "col < GRID_SIZE"
  shows "isValidPlacement grid row col v = (\<not> appearsInUnits grid row col v) \<and>
         (grid row col \<noteq> v \<longrightarrow>
            isValidPlacement grid row col v = (\<not> appearsElsewhere grid row col v))"
proof -
  have 1: "isValidPlacement grid row col v = (\<not> appearsInUnits grid row col v)"
    using assms by (auto simp: isValidPlacement_iff appearsInUnits_iff)
  have 2: "grid row col \<noteq> v \<Longrightarrow> appearsInUnits grid row col v = appearsElsewhere grid row col v"
    by (auto simp: appearsInUnits_iff appearsElsewhere_iff)
  from 1 2 show ?thesis by simp
qed

theorem isValidPlacement_checks_units_witness:
  "isValidPlacement (setCell emptyGrid 0 0 5) 0 1 5 = (\<not> appearsInUnits (setCell emptyGrid 0 0 5) 0 1 5) \<and>
   isValidPlacement (setCell emptyGrid 0 0 5) 0 1 5 = (\<not> appearsElsewhere (setCell emptyGrid 0 0 5) 0 1 5) \<and>
   \<not> isValidPlacement (setCell emptyGrid 0 0 5) 0 1 5"
proof -
  let ?g = "setCell emptyGrid 0 0 5"
  have b: "(0::nat) < GRID_SIZE" "(1::nat) < GRID_SIZE" by simp_all
  note t = isValidPlacement_checks_units [OF b, of ?g 5]
  have ne: "?g 0 1 \<noteq> 5" by (simp add: emptyGrid_def setCell_apply)
  from t have e1: "isValidPlacement ?g 0 1 5 = (\<not> appearsInUnits ?g 0 1 5)"
    by (rule conjunct1)
  from t ne have e2: "isValidPlacement ?g 0 1 5 = (\<not> appearsElsewhere ?g 0 1 5)"
    by blast
  have "sameUnit 0 1 0 0 \<and> ?g 0 0 = 5"
    by (simp add: sameUnit_def setCell_apply)
  then have "appearsInUnits ?g 0 1 5"
    unfolding appearsInUnits_iff by (intro exI[of _ 0] conjI) simp_all
  with e1 e2 show ?thesis by blast
qed

section \<open>The carved puzzle has the solution as its only completion\<close>

text \<open>
  C1: for every complete, constraint-satisfying solution grid, every difficulty and every
  sequence of random draws, the grid returned by \<^verbatim>\<open>createPuzzle\<close> has exactly one
  completion, that completion is the input solution, \<^verbatim>\<open>countSolutions\<close> on the returned
  puzzle is 1, and every non-zero cell of the returned puzzle equals the corresponding
  cell of the input solution.
\<close>

theorem createPuzzle_unique_solution:
  assumes "isSolution solution"
  shows "completions (createPuzzle solution difficulty rng) = {solution} \<and>
         fst (countSolutions (createPuzzle solution difficulty rng) 0) = 1 \<and>
         (\<forall>row<GRID_SIZE. \<forall>col<GRID_SIZE.
            createPuzzle solution difficulty rng row col \<noteq> 0 \<longrightarrow>
            createPuzzle solution difficulty rng row col = solution row col)"
proof -
  let ?p = "createPuzzle solution difficulty rng"
  from createPuzzle_unique [OF assms, of difficulty rng]
  have f: "fills ?p solution" and u: "completions ?p = {solution}" by simp_all
  from f assms have "consistent ?p" by (rule fills_solution_consistent)
  then have "countSolutions ?p 0 = (cappedCount 0 (card (completions ?p)), ?p)"
    by (rule countSolutions_value(1))
  with u have "fst (countSolutions ?p 0) = 1" by (simp add: cappedCount_def)
  moreover have "\<forall>row<GRID_SIZE. \<forall>col<GRID_SIZE. ?p row col \<noteq> 0 \<longrightarrow> ?p row col = solution row col"
    using fills_nonzero [OF f] by simp
  ultimately show ?thesis using u by simp
qed

theorem createPuzzle_unique_solution_witness:
  "isSolution exampleSolution \<and>
   completions (createPuzzle exampleSolution expert zeroDraws) = {exampleSolution} \<and>
   fst (countSolutions (createPuzzle exampleSolution expert zeroDraws) 0) = 1"
  using createPuzzle_unique_solution [OF isSolution_exampleSolution, of expert zeroDraws]
    isSolution_exampleSolution
  by simp

section \<open>The solution counter stops at two\<close>

text \<open>
  C2: for every internally consistent starting grid, \<^verbatim>\<open>countSolutions\<close> goes on past
  the first solution, adding to its counter, and returns at once, grid untouched, when
  it is called with a counter above the cutoff (the guard is \<^verbatim>\<open>count > 1\<close>, so this
  already holds from the counter 2 on). Started at 0 its result is the number of
  completions capped at 2: it equals that number when there is at most one completion,
  and it is greater than one exactly when there is more than one completion.
\<close>

theorem countSolutions_counts_to_cutoff:
  assumes "consistent grid"
  shows "(cnt > 1 \<longrightarrow> countSolutions grid cnt = (cnt, grid)) \<and>
         (cnt \<le> 1 \<longrightarrow> fst (countSolutions grid cnt) = min 2 (cnt + card (completions grid))) \<and>
         fst (countSolutions grid 0) = min 2 (card (completions grid)) \<and>
         (card (completions grid) \<le> 1 \<longrightarrow> fst (countSolutions grid 0) = card (completions grid)) \<and>
         (fst (countSolutions grid 0) > 1 \<longleftrightarrow> card (completions grid) > 1)"
proof -
  have v: "\<And>n. countSolutions grid n = (cappedCount n (card (completions grid)), grid)"
    using assms by (rule countSolutions_value(1))
  show ?thesis unfolding v by (auto simp: cappedCount_def)
qed

theorem countSolutions_counts_to_cutoff_witness:
  "consistent exampleSolution \<and>
   countSolutions exampleSolution 2 = (2, exampleSolution) \<and>
   countSolutions exampleSolution 3 = (3, exampleSolution) \<and>
   fst (countSolutions exampleSolution 0) = 1"
proof -
  have c: "consistent exampleSolution" and f: "isFull exampleSolution"
    using isSolution_exampleSolution by (simp_all add: isSolution_consistent_full)
  then have "card (completions exampleSolution) = 1"
    by (simp add: completions_full)
  with countSolutions_counts_to_cutoff [OF c, of 2] countSolutions_counts_to_cutoff [OF c, of 3] c
  show ?thesis by simp
qed

section \<open>The generated solution\<close>

text \<open>
  C4: for every sequence of random draws, \<^verbatim>\<open>generateSolution\<close> returns a fully filled
  grid (no zero cell) in which every row, every column and every 3x3 block contains each
  digit 1..9 exactly once; \<^verbatim>\<open>fillGrid\<close> reports success, so the grid is never a partial
  one.
\<close>

theorem generateSolution_valid:
  "fst (fillGrid emptyGrid rng) \<and>
   isFull (fst (generateSolution rng)) \<and>
   eachDigitOnce (fst (generateSolution rng))"
proof -
  obtain ok h rng' where r: "fillGrid emptyGrid rng = (ok, h, rng')"
    by (cases "fillGrid emptyGrid rng")
  have ok: ok
  proof (rule ccontr)
    assume "\<not> ok"
    with fillGrid_complete(1) [OF consistent_emptyGrid, of rng] r
    have "completions emptyGrid = {}" by simp
    with exampleSolution_completes_emptyGrid show False by simp
  qed
  with fillGrid_sound(1) [of emptyGrid rng] r
  have "fills emptyGrid h" "isFull h" "placedOk emptyGrid h" by simp_all
  with consistent_emptyGrid have "isSolution h" by (rule placedOk_solution)
  then have "eachDigitOnce h" by (rule isSolution_eachDigitOnce)
  with \<open>isFull h\<close> ok r show ?thesis by (simp add: generateSolution_def)
qed

theorem generateSolution_valid_witness:
  "isFull (fst (generateSolution zeroDraws)) \<and> eachDigitOnce (fst (generateSolution zeroDraws))"
  using generateSolution_valid [of zeroDraws] by simp

section \<open>Solving a carved puzzle gives back the solution\<close>

text \<open>
  C5: for every complete, constraint-satisfying solution grid \<open>s\<close>, every difficulty
  \<open>d\<close> and every sequence of random draws, \<^verbatim>\<open>solvePuzzle(createPuzzle(s, d))\<close> returns a
  grid (not null) equal to \<open>s\<close>.
\<close>

theorem solvePuzzle_createPuzzle:
  assumes "isSolution solution"
  shows "solvePuzzle (createPuzzle solution difficulty rng) = Some solution"
proof -
  let ?p = "createPuzzle solution difficulty rng"
  from createPuzzle_unique [OF assms, of difficulty rng]
  have f: "fills ?p solution" and u: "completions ?p = {solution}" by simp_all
  from f assms have c: "consistent ?p" by (rule fills_solution_consistent)
  obtain ok h where r: "solve ?p = (ok, h)" by (cases "solve ?p")
  have ok: ok
  proof (rule ccontr)
    assume "\<not> ok"
    with solve_complete(1) [OF c] r have "completions ?p = {}" by simp
    with u show False by simp
  qed
  with solve_sound(1) [of ?p] r have "fills ?p h" "isFull h" "placedOk ?p h" by simp_all
  with c have "isSolution h" by (rule placedOk_solution)
  with \<open>fills ?p h\<close> have "h \<in> completions ?p" by (simp add: completions_def completion_def)
  with u have "h = solution" by simp
  with r ok show ?thesis by (simp add: solvePuzzle_def)
qed

theorem solvePuzzle_createPuzzle_witness:
  "isSolution exampleSolution \<and>
   solvePuzzle (createPuzzle exampleSolution hard zeroDraws) = Some exampleSolution"
  using solvePuzzle_createPuzzle [OF isSolution_exampleSolution, of hard zeroDraws]
    isSolution_exampleSolution
  by simp

section \<open>The number of visible cells of a carved puzzle\<close>

text \<open>
  C6: for every complete, constraint-satisfying solution grid and every difficulty, the
  number of non-zero cells of the grid returned by \<^verbatim>\<open>createPuzzle\<close> is at least the
  difficulty's configured minimum; when the shuffled coordinate list is not exhausted
  before the removal target is reached, it is also at most the configured maximum. The
  run ends with every coordinate tried or with the target reached, so it ends short of
  the target only with the list exhausted; the count is 81 less the number of removals.
  The configured ranges are beginner [36,40], intermediate [32,36], hard [28,32], expert
  [24,28].
\<close>

theorem createPuzzle_visible_cells:
  assumes "isSolution solution"
  shows "min_cells (visibleCells (DIFFICULTY_CONFIGS difficulty))
           \<le> int (visibleCount (createPuzzle solution difficulty rng)) \<and>
         (\<not> exhaustedBeforeTarget (createPuzzleRun solution difficulty rng) \<longrightarrow>
          int (visibleCount (createPuzzle solution difficulty rng))
            \<le> max_cells (visibleCells (DIFFICULTY_CONFIGS difficulty))) \<and>
         (untried (createPuzzleRun solution difficulty rng) = [] \<or>
          finalRemoved (createPuzzleRun solution difficulty rng) =
            removeTarget (createPuzzleRun solution difficulty rng)) \<and>
         int (visibleCount (createPuzzle solution difficulty rng)) =
           81 - finalRemoved (createPuzzleRun solution difficulty rng) \<and>
         map (\<lambda>d. (min_cells (visibleCells (DIFFICULTY_CONFIGS d)),
                    max_cells (visibleCells (DIFFICULTY_CONFIGS d))))
           [beginner, intermediate, hard, expert] = [(36, 40), (32, 36), (28, 32), (24, 28)]"
proof -
  note c = createPuzzle_counts [OF assms, of difficulty rng]
  from c(1,2,3) have "min_cells (visibleCells (DIFFICULTY_CONFIGS difficulty))
           \<le> int (visibleCount (createPuzzle solution difficulty rng))" by linarith
  moreover from c(1,4,5) have "\<not> exhaustedBeforeTarget (createPuzzleRun solution difficulty rng) \<longrightarrow>
          int (visibleCount (createPuzzle solution difficulty rng))
            \<le> max_cells (visibleCells (DIFFICULTY_CONFIGS difficulty))"
    unfolding exhaustedBeforeTarget_def by linarith
  moreover from c(1) have "int (visibleCount (createPuzzle solution difficulty rng)) =
           81 - finalRemoved (createPuzzleRun solution difficulty rng)" by linarith
  ultimately show ?thesis using c(5) by simp
qed

theorem createPuzzle_visible_cells_witness:
  "isSolution exampleSolution \<and>
   \<not> exhaustedBeforeTarget (createPuzzleRun exampleSolution beginner carveDraws) \<and>
   untried (createPuzzleRun exampleSolution beginner carveDraws) \<noteq> [] \<and>
   finalRemoved (createPuzzleRun exampleSolution beginner carveDraws) = 41 \<and>
   int (visibleCount (createPuzzle exampleSolution beginner carveDraws)) = 40"
  using createPuzzle_visible_cells [OF isSolution_exampleSolution, of beginner carveDraws]
    isSolution_exampleSolution carveDraws_run
  by (auto simp: exhaustedBeforeTarget_def)

section \<open>The solver on a grid with a row conflict\<close>

text \<open>
  C7: \<^verbatim>\<open>solvePuzzle\<close> on the grid whose only preset values are 5 at \<open>(0, 0)\<close> and 5 at
  \<open>(0, 1)\<close>, all other cells empty, returns the not-found result \<^verbatim>\<open>null\<close> (here
  \<open>None\<close>): an ordinary return value of a search that ends, not an abort.
\<close>

theorem solvePuzzle_row_conflict: "solvePuzzle conflictGrid = None"
proof -
  obtain ok h where r: "solve conflictGrid = (ok, h)" by (cases "solve conflictGrid")
  have "\<not> ok"
  proof
    assume ok
    with solve_sound(1) [of conflictGrid] r
    have "fills conflictGrid h" "placedOk conflictGrid h" by simp_all
    then show False by (rule conflictGrid_no_fill)
  qed
  with r show ?thesis by (simp add: solvePuzzle_def)
qed

theorem solvePuzzle_row_conflict_witness:
  "conflictGrid 0 0 = 5 \<and> conflictGrid 0 1 = 5 \<and> conflictGrid 0 2 = 0 \<and> conflictGrid 1 0 = 0 \<and>
   solvePuzzle conflictGrid = None"
  using solvePuzzle_row_conflict
  by (simp add: conflictGrid_def setCell_apply emptyGrid_def)

section \<open>The entry points work on a copy\<close>

text \<open>
  C8: for every store, every grid in it, every difficulty and every sequence of random
  draws, \<^verbatim>\<open>createPuzzle\<close> and \<^verbatim>\<open>solvePuzzle\<close> leave the caller's argument grid unchanged:
  all 81 cells of the argument hold the same values after the call as before it. All
  their writes go to a copy whose rows are new; the grid they return is that copy, and
  its content is what the state-passing model computes from the argument's content.
\<close>

theorem entry_points_keep_argument:
  assumes "allocated st argRef"
  shows "sameCells st (fst (createPuzzleStore st argRef difficulty rng)) argRef \<and>
         newRows st (fst (snd (createPuzzleStore st argRef difficulty rng))) \<and>
         readGrid (fst (createPuzzleStore st argRef difficulty rng))
             (fst (snd (createPuzzleStore st argRef difficulty rng))) =
           createPuzzle (readGrid st argRef) difficulty rng \<and>
         sameCells st (fst (solvePuzzleStore st argRef)) argRef \<and>
         (case snd (solvePuzzleStore st argRef) of
            None \<Rightarrow> solvePuzzle (readGrid st argRef) = None
          | Some ref \<Rightarrow>
              newRows st ref \<and>
              solvePuzzle (readGrid st argRef) = Some (readGrid (fst (solvePuzzleStore st argRef)) ref))"
proof -
  obtain st1 st2 puzzleRef rng' where c:
    "copyGrid st argRef = (st1, puzzleRef)"
    "createPuzzleStore st argRef difficulty rng = (st2, puzzleRef, rng')"
    "onlyRowsOf puzzleRef st1 st2"
    "readGrid st2 puzzleRef = createPuzzle (readGrid st argRef) difficulty rng"
    by (rule createPuzzleStore_run)
  obtain st1' st2' solutionRef ok where s:
    "copyGrid st argRef = (st1', solutionRef)"
    "solvePuzzleStore st argRef = (st2', if ok then Some solutionRef else None)"
    "onlyRowsOf solutionRef st1' st2'"
    "solvePuzzle (readGrid st argRef) = (if ok then Some (readGrid st2' solutionRef) else None)"
    by (rule solvePuzzleStore_run)
  note r1 = run_on_copy [OF assms c(1,3)]
  note r2 = run_on_copy [OF assms s(1,3)]
  show ?thesis
    unfolding c(2) s(2) s(4) using r1(1,2) r2(1,2) c(4) by (cases ok) simp_all
qed

theorem entry_points_keep_argument_witness:
  "allocated exampleStore exampleRef \<and>
   sameCells exampleStore (fst (createPuzzleStore exampleStore exampleRef expert zeroDraws)) exampleRef \<and>
   sameCells exampleStore (fst (solvePuzzleStore exampleStore exampleRef)) exampleRef"
  using entry_points_keep_argument [OF allocated_example, of expert zeroDraws] allocated_example
  by simp

section \<open>The solution counter leaves the grid as it found it\<close>

text \<open>
  C9: for every grid and every starting counter, when \<^verbatim>\<open>countSolutions\<close> returns, the
  grid it was given is cell for cell the grid at the moment of the call: every cell it
  filled has been set back to 0. This holds in the state-passing model and on the store,
  where the whole store is as it was, whatever rows the grid shares. \<^verbatim>\<open>createPuzzle\<close>
  relies on it when it calls \<^verbatim>\<open>countSolutions\<close> in place on its working puzzle.
\<close>

theorem countSolutions_restores_grid:
  "snd (countSolutions grid cnt) = grid \<and> snd (countSolutionsStore st ref cnt) = st"
  using countSolutions_grid(1) [of grid cnt] countSolutionsStore_store(1) [of st ref cnt]
  by simp

theorem countSolutions_restores_grid_witness:
  "snd (countSolutions (setCell emptyGrid 0 0 5) 0) = setCell emptyGrid 0 0 5 \<and>
   snd (countSolutionsStore exampleStore exampleRef 0) = exampleStore"
  using countSolutions_restores_grid [of "setCell emptyGrid 0 0 5" 0 exampleStore exampleRef]
  by simp

section \<open>The records store (stores/records.ts)\<close>

text \<open>
  \<^verbatim>\<open>addRecord\<close> takes a record without \<^verbatim>\<open>id\<close> and \<^verbatim>\<open>date\<close> and adds the two: the fields
  of \<^verbatim>\<open>GameRecord\<close> are those of the argument, extended. The field \<^verbatim>\<open>id\<close> is \<open>recId\<close>
  here. Scores are integers.
\<close>

record NewRecord =
  playerName :: string
  score :: int
  difficulty :: Difficulty
  time :: int
  hintsUsed :: int
  errors :: int

record GameRecord = NewRecord +
  recId :: string
  date :: int

abbreviation MAX_RECORDS_PER_DIFFICULTY :: nat where "MAX_RECORDS_PER_DIFFICULTY \<equiv> 3"

text \<open>
  \<^verbatim>\<open>filter\<close>, then \<^verbatim>\<open>sort((a, b) => b.score - a.score)\<close>, a stable sort by descending
  score, then \<^verbatim>\<open>slice(0, 3)\<close>.
\<close>

definition getRecordsByDifficulty :: "GameRecord list \<Rightarrow> Difficulty \<Rightarrow> GameRecord list" where
  "getRecordsByDifficulty entries d =
     take MAX_RECORDS_PER_DIFFICULTY
       (sort_key (\<lambda>r. - score r) (filter (\<lambda>r. difficulty r = d) entries))"

text \<open>
  \<^verbatim>\<open>addRecord\<close>: the new identifier (\<^verbatim>\<open>crypto.randomUUID()\<close>) and the time
  (\<^verbatim>\<open>Date.now()\<close>) come from outside and are arguments here. It returns the new list of
  records of the store and the record it made.
\<close>

definition addRecord :: "GameRecord list \<Rightarrow> NewRecord \<Rightarrow> string \<Rightarrow> int \<Rightarrow> GameRecord list \<times> GameRecord" where
  "addRecord entries entry newId now =
     (let newRecord = NewRecord.extend entry (GameRecord.fields newId now);
          pushed = entries @ [newRecord];
          difficulties = [beginner, intermediate, hard, expert];
          newRecords = concat (map (\<lambda>diff. getRecordsByDifficulty pushed diff) difficulties)
      in (newRecords, newRecord))"

text \<open>A sequence of \<^verbatim>\<open>addRecord\<close> calls on the store, each with its record, identifier and time.\<close>

fun addRecords :: "GameRecord list \<Rightarrow> (NewRecord \<times> string \<times> int) list \<Rightarrow> GameRecord list" where
  "addRecords entries [] = entries"
| "addRecords entries ((entry, newId, now) # calls) =
     addRecords (fst (addRecord entries entry newId now)) calls"

lemma getRecords_difficulty:
  "r \<in> set (getRecordsByDifficulty entries d) \<Longrightarrow> difficulty r = d"
proof -
  assume "r \<in> set (getRecordsByDifficulty entries d)"
  then have "r \<in> set (sort_key (\<lambda>r. - score r) (filter (\<lambda>r. difficulty r = d) entries))"
    unfolding getRecordsByDifficulty_def by (rule in_set_takeD)
  then show ?thesis by simp
qed

lemma getRecords_length: "length (getRecordsByDifficulty entries d) \<le> 3"
  by (simp add: getRecordsByDifficulty_def)

lemma getRecords_sorted:
  "sorted_wrt (\<lambda>a b. score b \<le> score a) (getRecordsByDifficulty entries d)"
proof -
  let ?xs = "sort_key (\<lambda>r. - score r) (filter (\<lambda>r. difficulty r = d) entries)"
  have "sorted (map (\<lambda>r. - score r) ?xs)" by (rule sorted_sort_key)
  then have "sorted_wrt (\<lambda>a b. - score a \<le> - score b) ?xs" by (simp add: sorted_map)
  then have "sorted_wrt (\<lambda>a b. score b \<le> score a) ?xs" by simp
  then show ?thesis unfolding getRecordsByDifficulty_def by (rule sorted_wrt_take)
qed

lemma filter_getRecords:
  "filter (\<lambda>r. difficulty r = d) (getRecordsByDifficulty entries d') =
     (if d' = d then getRecordsByDifficulty entries d' else [])"
  using getRecords_difficulty [of _ entries d']
  by (auto simp: filter_empty_conv intro!: filter_True)

lemma addRecord_cap:
  "length (filter (\<lambda>r. difficulty r = d) (fst (addRecord entries entry newId now))) \<le> 3"
  by (cases d) (simp_all add: addRecord_def Let_def filter_getRecords getRecords_length)

lemma addRecords_cap:
  "calls \<noteq> [] \<Longrightarrow> length (filter (\<lambda>r. difficulty r = d) (addRecords entries calls)) \<le> 3"
proof (induction entries calls rule: addRecords.induct)
  case (1 entries)
  then show ?case by simp
next
  case (2 entries entry newId now calls)
  show ?case
  proof (cases "calls = []")
    case True
    then show ?thesis by (simp add: addRecord_cap)
  next
    case False
    with 2 show ?thesis by simp
  qed
qed

text \<open>
  C10: after any sequence of \<^verbatim>\<open>addRecord\<close> calls on the records store (at least one
  call, or none on the empty store), at most 3 records are kept per difficulty, and
  \<^verbatim>\<open>getRecordsByDifficulty\<close> returns at most 3 records, only records of that difficulty,
  sorted in descending order by score: of two returned records the earlier one's score
  is greater than or equal to the later one's, in particular for adjacent ones.
\<close>

theorem records_capped_and_sorted:
  assumes "calls \<noteq> [] \<or> entries = []"
  shows "length (filter (\<lambda>r. difficulty r = d) (addRecords entries calls)) \<le> MAX_RECORDS_PER_DIFFICULTY \<and>
         length (getRecordsByDifficulty (addRecords entries calls) d) \<le> MAX_RECORDS_PER_DIFFICULTY \<and>
         (\<forall>r\<in>set (getRecordsByDifficulty (addRecords entries calls) d). difficulty r = d) \<and>
         sorted_wrt (\<lambda>a b. score a \<ge> score b) (getRecordsByDifficulty (addRecords entries calls) d) \<and>
         (\<forall>i. Suc i < length (getRecordsByDifficulty (addRecords entries calls) d) \<longrightarrow>
            score (getRecordsByDifficulty (addRecords entries calls) d ! i)
              \<ge> score (getRecordsByDifficulty (addRecords entries calls) d ! Suc i))"
proof -
  let ?rs = "addRecords entries calls"
  have cap: "length (filter (\<lambda>r. difficulty r = d) ?rs) \<le> 3"
  proof (cases "calls = []")
    case True
    with assms show ?thesis by simp
  next
    case False
    then show ?thesis by (rule addRecords_cap)
  qed
  have s: "sorted_wrt (\<lambda>a b. score b \<le> score a) (getRecordsByDifficulty ?rs d)"
    by (rule getRecords_sorted)
  then have adj: "\<forall>i. Suc i < length (getRecordsByDifficulty ?rs d) \<longrightarrow>
      score (getRecordsByDifficulty ?rs d ! Suc i) \<le> score (getRecordsByDifficulty ?rs d ! i)"
    by (simp add: sorted_wrt_iff_nth_less)
  from cap s adj getRecords_length [of ?rs d] getRecords_difficulty [of _ ?rs d]
  show ?thesis by blast
qed

definition exampleCalls :: "(NewRecord \<times> string \<times> int) list" where
  "exampleCalls =
     [(\<lparr>playerName = ''Player1'', score = 100, difficulty = beginner, time = 120, hintsUsed = 0, errors = 0\<rparr>, ''a'', 1),
      (\<lparr>playerName = ''Player2'', score = 150, difficulty = beginner, time = 180, hintsUsed = 1, errors = 1\<rparr>, ''b'', 2),
      (\<lparr>playerName = ''Player3'', score = 200, difficulty = beginner, time = 200, hintsUsed = 2, errors = 2\<rparr>, ''c'', 3),
      (\<lparr>playerName = ''Player4'', score = 50, difficulty = beginner, time = 100, hintsUsed = 3, errors = 3\<rparr>, ''d'', 4)]"

theorem records_capped_and_sorted_witness:
  "exampleCalls \<noteq> [] \<and>
   length (filter (\<lambda>r. difficulty r = beginner) (addRecords [] exampleCalls)) \<le> 3 \<and>
   sorted_wrt (\<lambda>a b. score a \<ge> score b) (getRecordsByDifficulty (addRecords [] exampleCalls) beginner) \<and>
   map score (getRecordsByDifficulty (addRecords [] exampleCalls) beginner) = [200, 150, 100]"
proof -
  have ne: "exampleCalls \<noteq> []" by (simp add: exampleCalls_def)
  then have "exampleCalls \<noteq> [] \<or> ([]::GameRecord list) = []" by simp
  from records_capped_and_sorted [OF this, of beginner]
  have "length (filter (\<lambda>r. difficulty r = beginner) (addRecords [] exampleCalls)) \<le> 3"
    and "sorted_wrt (\<lambda>a b. score a \<ge> score b) (getRecordsByDifficulty (addRecords [] exampleCalls) beginner)"
    by simp_all
  moreover have "map score (getRecordsByDifficulty (addRecords [] exampleCalls) beginner) = [200, 150, 100]"
    by (simp add: exampleCalls_def addRecord_def getRecordsByDifficulty_def Let_def
        NewRecord.extend_def GameRecord.fields_def NewRecord.defs GameRecord.defs)
  ultimately show ?thesis using ne by simp
qed

end
